theory Spec2Isabelle
  imports Main
begin

section \<open>Documents\<close>

text \<open>
  The JSON data model that \<open>deref\<close> receives: scalars, arrays and objects with string
  keys. An object is the list of its entries in the order \<open>Object.keys\<close> enumerates
  them. Numbers are integers here: the engine only ever tests a number for being zero.
\<close>

datatype json =
    JNull
  | JBool bool
  | JNum int
  | JStr string
  | JArr "json list"
  | JObj "(string \<times> json) list"

text \<open>The decimal spelling of an array index, as \<open>Object.keys\<close> gives it for an array.\<close>

definition digit :: "nat \<Rightarrow> char" where
  "digit d = char_of (48 + d)"

fun show_nat :: "nat \<Rightarrow> string" where
  "show_nat n = (if n < 10 then [digit n] else show_nat (n div 10) @ [digit (n mod 10)])"

declare show_nat.simps [simp del]

definition index_keys :: "'a list \<Rightarrow> string list" where
  "index_keys xs = map show_nat [0..<length xs]"

text \<open>The own enumerable entries of a node: none for a scalar.\<close>

fun entries :: "json \<Rightarrow> (string \<times> json) list" where
  "entries (JObj kvs) = kvs"
| "entries (JArr xs) = zip (index_keys xs) xs"
| "entries _ = []"

text \<open>The node reached from \<open>j\<close> by a list of keys, \<open>None\<close> for JavaScript's \<open>undefined\<close>.\<close>

fun get :: "json \<Rightarrow> string list \<Rightarrow> json option" where
  "get j [] = Some j"
| "get j (k # ks) = (case map_of (entries j) k of None \<Rightarrow> None | Some c \<Rightarrow> get c ks)"

text \<open>
  A document a JavaScript object can hold: the keys of every object are distinct.
\<close>

fun wf_json :: "json \<Rightarrow> bool"
  and wf_list :: "json list \<Rightarrow> bool"
  and wf_entries :: "(string \<times> json) list \<Rightarrow> bool" where
  "wf_json (JObj kvs) = (distinct (map fst kvs) \<and> wf_entries kvs)"
| "wf_json (JArr xs) = wf_list xs"
| "wf_json _ = True"
| "wf_list [] = True"
| "wf_list (x # xs) = (wf_json x \<and> wf_list xs)"
| "wf_entries [] = True"
| "wf_entries (kv # kvs) = (wf_json (snd kv) \<and> wf_entries kvs)"

section \<open>Strings\<close>

text \<open>\<open>String.prototype.split\<close> with a one-character separator.\<close>

fun split_on :: "char \<Rightarrow> string \<Rightarrow> string list" where
  "split_on c [] = [[]]"
| "split_on c (x # xs) =
     (if x = c then [] # split_on c xs
      else (case split_on c xs of [] \<Rightarrow> [[x]] | y # ys \<Rightarrow> (x # y) # ys))"

text \<open>\<open>Array.prototype.join\<close>.\<close>

fun join :: "string \<Rightarrow> string list \<Rightarrow> string" where
  "join sep [] = []"
| "join sep [x] = x"
| "join sep (x # y # ys) = x @ sep @ join sep (y # ys)"

text \<open>\<open>s.indexOf(t) >= 0\<close>: \<open>t\<close> occurs in \<open>s\<close>.\<close>

fun starts_with :: "string \<Rightarrow> string \<Rightarrow> bool" where
  "starts_with s [] = True"
| "starts_with [] (y # ys) = False"
| "starts_with (x # xs) (y # ys) = (x = y \<and> starts_with xs ys)"

fun occurs_in :: "string \<Rightarrow> string \<Rightarrow> bool" where
  "occurs_in t [] = (t = [])"
| "occurs_in t (x # xs) = (starts_with (x # xs) t \<or> occurs_in t xs)"

text \<open>\<open>String.prototype.toLowerCase\<close> on ASCII letters.\<close>

definition lower_char :: "char \<Rightarrow> char" where
  "lower_char c =
     (let n = of_char c :: nat in if 65 \<le> n \<and> n \<le> 90 then char_of (n + 32) else c)"

definition toLowerCase :: "string \<Rightarrow> string" where
  "toLowerCase s = map lower_char s"

section \<open>Errors\<close>

text \<open>
  The \<open>Error\<close> objects the module creates, one constructor for each message:
  \<^item> \<open>Circular self reference\<close>,
  \<^item> \<open>Circular self reference from <from> to <to>\<close>,
  \<^item> \<open>circular references found: <refs>\<close>,
  \<^item> \<open>Missing $ref: <ref>\<close>.
\<close>

datatype error =
    CircularSelf
  | CircularFromTo string string
  | CircularFound "string list"
  | MissingRef string

fun is_CircularReference :: "error \<Rightarrow> bool" where
  "is_CircularReference (MissingRef r) = False"
| "is_CircularReference _ = True"

fun is_MissingReference :: "error \<Rightarrow> bool" where
  "is_MissingReference (MissingRef r) = True"
| "is_MissingReference _ = False"

section \<open>Options and collaborators\<close>

record options =
  baseFolder :: "string option"
  failOnMissing :: bool

datatype refType = Local | File | Unsupported

text \<open>
  What the module takes from outside itself: the file loader, Node's \<open>path\<close> functions,
  \<open>process.cwd()\<close>, the fingerprint \<open>md5(JSON.stringify(schema))\<close>, and the two
  helpers of \<open>utils\<close> of which the specification says nothing but their purpose
  (\<open>isAbsolute\<close>, and the test for a reference string having the shape of a file
  reference).
\<close>

record env =
  loader :: "string \<Rightarrow> options \<Rightarrow> json option"
  resolve :: "string \<Rightarrow> string \<Rightarrow> string"
  dirname :: "string \<Rightarrow> string"
  isAbsolute :: "string \<Rightarrow> bool"
  process_cwd :: string
  md5 :: "json \<Rightarrow> string"
  isFileRef :: "string \<Rightarrow> bool"

section \<open>The static cycle pass\<close>

text \<open>
  Modelled from the spec: \<open>utils.getRefValue\<close>, the string held by the \<open>$ref\<close> field
  of a reference node. Arrays and scalars have no such field.
\<close>

fun getRefValue :: "json \<Rightarrow> string option" where
  "getRefValue (JObj kvs) = (case map_of kvs ''$ref'' of Some (JStr s) \<Rightarrow> Some s | _ \<Rightarrow> None)"
| "getRefValue _ = None"

text \<open>
  Modelled from the spec: \<open>utils.getRefType\<close>, section 4.2. A string starting with \<open>#\<close>
  is local, a string of the shape the registered loader recognises is a file reference,
  anything else is unsupported.
\<close>

definition classify :: "env \<Rightarrow> string \<Rightarrow> refType" where
  "classify E s =
     (if starts_with s ''#'' then Local else if isFileRef E s then File else Unsupported)"

text \<open>
  The scan of \<open>checkLocalCircular\<close>: \<open>traverse(schema).reduce\<close> visits every node in
  pre-order, and a node whose \<open>$ref\<close> is a string, of local type and not empty, adds
  the pair of its path (joined with \<open>/\<close>) and its reference string.
\<close>

fun locals :: "env \<Rightarrow> string list \<Rightarrow> json \<Rightarrow> (string \<times> string) list"
  and locals_items :: "env \<Rightarrow> string list \<Rightarrow> nat \<Rightarrow> json list \<Rightarrow> (string \<times> string) list"
  and locals_entries :: "env \<Rightarrow> string list \<Rightarrow> (string \<times> json) list \<Rightarrow> (string \<times> string) list" where
  "locals E p j =
     (case getRefValue j of
        Some v \<Rightarrow> (if classify E v = Local \<and> v \<noteq> [] then [(join ''/'' p, v)] else [])
      | None \<Rightarrow> [])
     @ (case j of
          JObj kvs \<Rightarrow> locals_entries E p kvs
        | JArr xs \<Rightarrow> locals_items E p 0 xs
        | _ \<Rightarrow> [])"
| "locals_items E p i [] = []"
| "locals_items E p i (x # xs) = locals E (p @ [show_nat i]) x @ locals_items E p (Suc i) xs"
| "locals_entries E p [] = []"
| "locals_entries E p (kv # kvs) = locals E (p @ [fst kv]) (snd kv) @ locals_entries E p kvs"

declare locals.simps(1) [simp del]

text \<open>
  The \<open>dag-map\<close> graph, as its list of edges \<open>(from, to)\<close>. \<open>addEdge\<close> does nothing
  for an empty name, a loop or an edge already there; it throws (\<open>None\<close>) when \<open>to\<close> is
  among the vertices it visits from \<open>from\<close> along incoming edges; otherwise it adds the
  edge.
\<close>

type_synonym dag = "(string \<times> string) list"

primrec visit :: "nat \<Rightarrow> dag \<Rightarrow> string list \<Rightarrow> string list" where
  "visit 0 g vs = vs"
| "visit (Suc n) g vs =
     visit n g (vs @ filter (\<lambda>f. f \<notin> set vs) (map fst (filter (\<lambda>e. snd e \<in> set vs) g)))"

definition addEdge :: "dag \<Rightarrow> string \<Rightarrow> string \<Rightarrow> dag option" where
  "addEdge g fromName toName =
     (if fromName = [] \<or> toName = [] \<or> fromName = toName then Some g
      else if (fromName, toName) \<in> set g then Some g
      else if toName \<in> set (visit (length g) g [fromName]) then None
      else Some (g @ [(fromName, toName)]))"

text \<open>
  The \<open>_.find\<close> over the collected pairs: the first pair whose edge makes \<open>addEdge\<close>
  throw, or whose destination occurs in its own path.
\<close>

fun find_circular :: "dag \<Rightarrow> (string \<times> string) list \<Rightarrow> (string \<times> string) option" where
  "find_circular g [] = None"
| "find_circular g (elem # rest) =
     (let from = fst elem @ ''/''; dest = drop 2 (snd elem) @ ''/'' in
      case addEdge g from dest of
        None \<Rightarrow> Some elem
      | Some g' \<Rightarrow> if occurs_in dest from then Some elem else find_circular g' rest)"

definition checkLocalCircular :: "env \<Rightarrow> json \<Rightarrow> error option" where
  "checkLocalCircular E schema =
     (let ls = locals E [] schema in
      if ls = [] then None
      else if list_ex (\<lambda>elem. snd elem = ''#'') ls then Some CircularSelf
      else (case find_circular [] ls of
              Some check \<Rightarrow> Some (CircularFromTo (fst check) (snd check))
            | None \<Rightarrow> None))"

section \<open>The working copy\<close>

text \<open>
  \<open>traverse(schema).forEach\<close> replaces nodes in place, and the value put in place of a
  local reference is the very object found in the document, not a copy of it. Objects
  and arrays therefore live in a store. An address is the number of the document the
  object came with (the clone of the caller's document, or a document handed over by the
  loader) and the path at which it stood in that document. An array is an object whose
  keys are its indices.
\<close>

type_synonym addr = "nat \<times> string list"

datatype val =
    VNull
  | VBool bool
  | VNum int
  | VStr string
  | VObj addr
  | VErr error

type_synonym obj = "bool \<times> (string \<times> val) list"

type_synonym heap = "addr \<Rightarrow> obj option"

fun val_of :: "nat \<Rightarrow> string list \<Rightarrow> json \<Rightarrow> val" where
  "val_of d p JNull = VNull"
| "val_of d p (JBool b) = VBool b"
| "val_of d p (JNum i) = VNum i"
| "val_of d p (JStr s) = VStr s"
| "val_of d p (JArr xs) = VObj (d, p)"
| "val_of d p (JObj kvs) = VObj (d, p)"

fun is_JArr :: "json \<Rightarrow> bool" where
  "is_JArr (JArr xs) = True"
| "is_JArr _ = False"

fun is_node :: "json \<Rightarrow> bool" where
  "is_node (JArr xs) = True"
| "is_node (JObj kvs) = True"
| "is_node _ = False"

definition obj_of :: "nat \<Rightarrow> string list \<Rightarrow> json \<Rightarrow> obj option" where
  "obj_of d p j =
     (if is_node j
      then Some (is_JArr j, map (\<lambda>kv. (fst kv, val_of d (p @ [fst kv]) (snd kv))) (entries j))
      else None)"

text \<open>The store after document number \<open>d\<close> has been put into it.\<close>

definition alloc :: "nat \<Rightarrow> json \<Rightarrow> heap \<Rightarrow> heap" where
  "alloc d doc h =
     (\<lambda>a. if fst a = d
          then (case get doc (snd a) of Some j \<Rightarrow> obj_of d (snd a) j | None \<Rightarrow> None)
          else h a)"

text \<open>JavaScript's truthiness.\<close>

fun truthy :: "val \<Rightarrow> bool" where
  "truthy VNull = False"
| "truthy (VBool b) = b"
| "truthy (VNum i) = (i \<noteq> 0)"
| "truthy (VStr s) = (s \<noteq> [])"
| "truthy (VObj a) = True"
| "truthy (VErr e) = True"

fun is_VErr :: "val \<Rightarrow> bool" where
  "is_VErr (VErr e) = True"
| "is_VErr _ = False"

text \<open>\<open>node[key]\<close>, \<open>Object.keys(node)\<close> and \<open>node[key] = x\<close> for an existing key.\<close>

definition get_prop :: "heap \<Rightarrow> addr \<Rightarrow> string \<Rightarrow> val option" where
  "get_prop h a k = (case h a of Some ob \<Rightarrow> map_of (snd ob) k | None \<Rightarrow> None)"

definition own_keys :: "heap \<Rightarrow> addr \<Rightarrow> string list" where
  "own_keys h a = (case h a of Some ob \<Rightarrow> map fst (snd ob) | None \<Rightarrow> [])"

definition set_prop :: "heap \<Rightarrow> addr \<Rightarrow> string \<Rightarrow> val \<Rightarrow> heap" where
  "set_prop h a k x =
     (case h a of
        Some ob \<Rightarrow> h(a \<mapsto> (fst ob, map (\<lambda>kv. if fst kv = k then (k, x) else kv) (snd ob)))
      | None \<Rightarrow> h)"

text \<open>\<open>typeof node.$ref === 'string'\<close>, and the string: only an object has the field.\<close>

definition node_ref :: "heap \<Rightarrow> val \<Rightarrow> string option" where
  "node_ref h node =
     (case node of
        VObj a \<Rightarrow>
          (case h a of
             Some ob \<Rightarrow>
               (if fst ob then None
                else (case map_of (snd ob) ''$ref'' of Some (VStr s) \<Rightarrow> Some s | _ \<Rightarrow> None))
           | None \<Rightarrow> None)
      | _ \<Rightarrow> None)"

text \<open>
  Modelled from the spec: \<open>utils.getRefPathValue\<close>, section 4.1. The pointer is split
  on \<open>/\<close>, the leading empty segment that \<open>#/\<close> produces is discarded, and the document
  is walked one segment at a time by key or index; an absent key, or a segment applied to
  a scalar, gives not found.
\<close>

definition pointer_segments :: "string \<Rightarrow> string list" where
  "pointer_segments r =
     (case split_on (CHR ''/'') (if starts_with r ''#'' then tl r else r) of
        [] \<Rightarrow> []
      | s # ss \<Rightarrow> if s = [] then ss else s # ss)"

fun lookup_path :: "heap \<Rightarrow> val \<Rightarrow> string list \<Rightarrow> val option" where
  "lookup_path h v [] = Some v"
| "lookup_path h v (k # ks) =
     (case v of
        VObj a \<Rightarrow> (case get_prop h a k of Some c \<Rightarrow> lookup_path h c ks | None \<Rightarrow> None)
      | _ \<Rightarrow> None)"

definition getRefPathValue :: "heap \<Rightarrow> val \<Rightarrow> string \<Rightarrow> val option" where
  "getRefPathValue h schema refPath = lookup_path h schema (pointer_segments refPath)"

text \<open>
  Modelled from the spec: \<open>utils.getRefFilePath\<close>, section 4.2: the part of the
  reference string before the first \<open>#\<close>.
\<close>

definition getRefFilePath :: "string \<Rightarrow> string" where
  "getRefFilePath refPath = takeWhile (\<lambda>c. c \<noteq> CHR ''#'') refPath"

section \<open>Resolution state\<close>

text \<open>The \<open>state\<close> object of one call.\<close>

record state =
  circular :: bool
  circularRefs :: "string list"
  cwd :: string
  missing :: "string list"
  history :: "string list"
  current :: string
  error :: "error option"

text \<open>
  What else the traversal reads and writes: the store, the module's \<open>cache\<close>, the
  caller's \<open>options\<close> object, and, for counting, the list of the calls made to the
  loader (the reference string and the options it was given).
\<close>

record world =
  heap :: heap
  cache :: "string \<Rightarrow> val option"
  opts :: options
  loads :: "(string \<times> options) list"
  nextdoc :: nat

type_synonym 'a res = "('a \<times> state \<times> world) option"

definition push_history :: "state \<Rightarrow> string \<Rightarrow> bool \<times> state" where
  "push_history st dest =
     (if dest \<noteq> []
      then (let d = toLowerCase dest in
            if d \<in> set (history st) then (False, st)
            else (True, st\<lparr>history := history st @ [d]\<rparr>))
      else (True, st))"

definition addToHistory :: "state \<Rightarrow> refType \<Rightarrow> string \<Rightarrow> bool \<times> state" where
  "addToHistory st type value =
     (if type = File then push_history st (getRefFilePath value)
      else if value = ''#'' then (False, st)
      else push_history st (current st @ '':'' @ value))"

definition setCurrent :: "state \<Rightarrow> refType \<Rightarrow> string \<Rightarrow> state" where
  "setCurrent st type value =
     (if type = File \<and> getRefFilePath value \<noteq> [] then st\<lparr>current := getRefFilePath value\<rparr>
      else st)"

text \<open>\<open>this.update(x)\<close>: the parent's entry is overwritten, unless the node is the root.\<close>

fun update_slot :: "(addr \<times> string) option \<Rightarrow> val \<Rightarrow> world \<Rightarrow> world" where
  "update_slot None x w = w"
| "update_slot (Some (a, k)) x w = w\<lparr>heap := set_prop (heap w) a k x\<rparr>"

section \<open>The resolution engine\<close>

text \<open>
  \<open>derefSchema\<close> walks a document, the callback of the walk calls \<open>getRefSchema\<close>, and
  \<open>getRefSchema\<close> calls \<open>derefSchema\<close> again on a document it has loaded. A loader may
  hand out documents without end, so the recursion is bounded by a fuel: \<open>None\<close> is a
  call that did not return within it. The functions are first written over the walk
  they call (\<open>W\<close>), and the walk is then defined by recursion on the fuel.
\<close>

type_synonym walk = "val \<Rightarrow> val list \<Rightarrow> (addr \<times> string) option \<Rightarrow> val \<Rightarrow> state \<Rightarrow> world \<Rightarrow> val res"

text \<open>
  \<open>derefSchema\<close>, lines 209 to 255: the static pass, the two early returns, and the walk
  from the root (no ancestors, no parent entry). The document is a tree freshly built
  (by \<open>clone\<close> or by the loader), and it enters the store here.
\<close>

definition enter_doc :: "json \<Rightarrow> world \<Rightarrow> world" where
  "enter_doc schema w = w\<lparr>heap := alloc (nextdoc w) schema (heap w), nextdoc := Suc (nextdoc w)\<rparr>"

definition derefSchema_with :: "walk \<Rightarrow> env \<Rightarrow> json \<Rightarrow> state \<Rightarrow> world \<Rightarrow> val res" where
  "derefSchema_with W E schema st w =
     (case checkLocalCircular E schema of
        Some check \<Rightarrow> Some (VErr check, st, w)
      | None \<Rightarrow>
          if circular st then Some (VErr (CircularFound (circularRefs st)), st, w)
          else (case error st of
                  Some e \<Rightarrow> Some (VErr e, st, w)
                | None \<Rightarrow>
                    W (val_of (nextdoc w) [] schema) [] None (val_of (nextdoc w) [] schema) st
                      (enter_doc schema w)))"

text \<open>
  The end of \<open>getRefSchema\<close>, lines 78 to 95, for a loader value \<open>lv\<close>: a truthy value
  is cached unless the path is empty or has a truthy entry, and the pointer after \<open>#\<close>,
  if there is one, is looked up in it; a falsy result is \<open>undefined\<close>.
\<close>

definition cached :: "world \<Rightarrow> string \<Rightarrow> val option" where
  "cached w full = (case cache w full of Some v \<Rightarrow> if truthy v then Some v else None | None \<Rightarrow> None)"

definition cache_put :: "string \<Rightarrow> val \<Rightarrow> world \<Rightarrow> world" where
  "cache_put full lv w =
     (if full \<noteq> [] \<and> cached w full = None then w\<lparr>cache := (cache w)(full \<mapsto> lv)\<rparr> else w)"

definition pick :: "heap \<Rightarrow> string \<Rightarrow> val \<Rightarrow> val option" where
  "pick h refVal lv =
     (if CHR ''#'' \<in> set refVal
      then (case getRefPathValue h lv (split_on (CHR ''#'') refVal ! 1) of
              Some v \<Rightarrow> if truthy v then Some v else None
            | None \<Rightarrow> None)
      else Some lv)"

definition finish :: "string \<Rightarrow> string \<Rightarrow> val \<Rightarrow> state \<Rightarrow> world \<Rightarrow> (val option) res" where
  "finish refVal full lv st w =
     (if truthy lv then Some (pick (heap w) refVal lv, st, cache_put full lv w)
      else Some (None, st, w))"

fun truthy_json :: "json \<Rightarrow> bool" where
  "truthy_json JNull = False"
| "truthy_json (JBool b) = b"
| "truthy_json (JNum i) = (i \<noteq> 0)"
| "truthy_json (JStr s) = (s \<noteq> [])"
| "truthy_json _ = True"

text \<open>
  Lines 56 to 67 and 72 to 74: \<open>options.baseFolder = state.cwd = newBasePath\<close> when the
  file lies in a folder of its own, and the assignment back when \<open>oldBasePath\<close> is
  truthy.
\<close>

definition folder_of :: "env \<Rightarrow> string \<Rightarrow> string" where
  "folder_of E filePath = (if dirname E filePath = ''.'' then [] else dirname E filePath)"

definition set_base :: "string \<Rightarrow> state \<times> world \<Rightarrow> state \<times> world" where
  "set_base b sw = ((fst sw)\<lparr>cwd := b\<rparr>, (snd sw)\<lparr>opts := (opts (snd sw))\<lparr>baseFolder := Some b\<rparr>\<rparr>)"

definition enter_folder :: "env \<Rightarrow> string \<Rightarrow> state \<times> world \<Rightarrow> state \<times> world" where
  "enter_folder E filePath sw =
     (if folder_of E filePath \<noteq> []
      then set_base (resolve E (cwd (fst sw)) (folder_of E filePath)) sw else sw)"

definition leave_folder :: "string \<Rightarrow> state \<times> world \<Rightarrow> state \<times> world" where
  "leave_folder oldBasePath sw = (if oldBasePath \<noteq> [] then set_base oldBasePath sw else sw)"

text \<open>Lines 54 to 75: a loaded document is resolved before anything is taken from it.\<close>

definition load_file ::
  "walk \<Rightarrow> env \<Rightarrow> string \<Rightarrow> string \<Rightarrow> string \<Rightarrow> json \<Rightarrow> state \<Rightarrow> world \<Rightarrow> (val option) res" where
  "load_file W E refVal filePath full doc st w =
     (let oldBasePath = (if folder_of E filePath \<noteq> [] then cwd st else []);
          sw1 = enter_folder E filePath (st, w)
      in case derefSchema_with W E doc (fst sw1) (snd sw1) of
           None \<Rightarrow> None
         | Some (lv, st2, w2) \<Rightarrow>
             (let sw3 = leave_folder oldBasePath (st2, w2)
              in finish refVal full lv (fst sw3) (snd sw3)))"

definition log_load :: "string \<Rightarrow> world \<Rightarrow> world" where
  "log_load refVal w = w\<lparr>loads := loads w @ [(refVal, opts w)]\<rparr>"

definition full_path :: "env \<Rightarrow> state \<Rightarrow> string \<Rightarrow> string" where
  "full_path E st filePath =
     (if isAbsolute E filePath then filePath else resolve E (cwd st) filePath)"

text \<open>
  \<open>getRefSchema\<close>, lines 35 to 99. The only registered loader is the one of type
  \<open>file\<close>. A document that the loader does not find, or finds falsy, is \<open>undefined\<close>.
\<close>

definition getRefSchema ::
  "walk \<Rightarrow> env \<Rightarrow> string \<Rightarrow> refType \<Rightarrow> val \<Rightarrow> state \<Rightarrow> world \<Rightarrow> (val option) res" where
  "getRefSchema W E refVal refType parent st w =
     (if refType = File
      then (let filePath = getRefFilePath refVal;
                fullRefFilePath = full_path E st filePath
            in case cached w fullRefFilePath of
                 Some lv \<Rightarrow> finish refVal fullRefFilePath lv st w
               | None \<Rightarrow>
                   (case loader E refVal (opts w) of
                      None \<Rightarrow> Some (None, st, log_load refVal w)
                    | Some doc \<Rightarrow>
                        if truthy_json doc
                        then load_file W E refVal filePath fullRefFilePath doc st (log_load refVal w)
                        else Some (None, st, log_load refVal w)))
      else if refType = Local then Some (getRefPathValue (heap w) parent refVal, st, w)
      else Some (None, st, w))"

text \<open>
  The callback of \<open>traverse(schema).forEach\<close>, lines 221 to 254. It gives the node
  that stands in the place afterwards and whether the walk goes on into it
  (\<open>this.update(x, true)\<close> stops it).
\<close>

definition flag_circular :: "string \<Rightarrow> state \<Rightarrow> state" where
  "flag_circular refVal st =
     st\<lparr>circular := True, circularRefs := circularRefs st @ [refVal],
        error := Some (CircularFound (circularRefs st @ [refVal]))\<rparr>"

definition pop_history :: "state \<Rightarrow> state" where
  "pop_history st = st\<lparr>history := butlast (history st)\<rparr>"

definition note_missing :: "string \<Rightarrow> bool \<Rightarrow> state \<Rightarrow> state" where
  "note_missing refVal fail st =
     (let st1 = (if refVal \<in> set (missing st) then st else st\<lparr>missing := missing st @ [refVal]\<rparr>)
      in if fail then st1\<lparr>error := Some (MissingRef refVal)\<rparr> else st1)"

definition clear_missing :: "string \<Rightarrow> state \<Rightarrow> state" where
  "clear_missing refVal st = st\<lparr>missing := remove1 refVal (missing st)\<rparr>"

definition on_node ::
  "walk \<Rightarrow> env \<Rightarrow> val \<Rightarrow> (addr \<times> string) option \<Rightarrow> val \<Rightarrow> state \<Rightarrow> world \<Rightarrow> (val \<times> bool) res" where
  "on_node W E schema slot node st w =
     (case node_ref (heap w) node of
        None \<Rightarrow> Some ((node, True), st, w)
      | Some refVal \<Rightarrow>
          (let refType = classify E refVal;
               addOk = addToHistory st refType refVal
           in if \<not> fst addOk
              then Some ((node, False), flag_circular refVal (snd addOk), update_slot slot node w)
              else (case getRefSchema W E refVal refType schema
                           (setCurrent (snd addOk) refType refVal) w of
                      None \<Rightarrow> None
                    | Some (newValue, st1, w1) \<Rightarrow>
                        (case newValue of
                           None \<Rightarrow>
                             Some ((node, \<not> failOnMissing (opts w1)),
                                   note_missing refVal (failOnMissing (opts w1)) (pop_history st1),
                                   update_slot slot node w1)
                         | Some v \<Rightarrow>
                             Some ((v, True), clear_missing refVal (pop_history st1),
                                   update_slot slot v w1)))))"

text \<open>
  The walk of \<open>traverse\<close>: the callback on the node, then, unless it was stopped, the
  node in the place is not an object, or the node as it was found is one of its own
  ancestors, the walk of each entry of the node in the place, in the order of its keys,
  each entry read when its turn comes.
\<close>

fun walk_keys ::
  "((addr \<times> string) option \<Rightarrow> val \<Rightarrow> state \<Rightarrow> world \<Rightarrow> val res) \<Rightarrow> addr \<Rightarrow> string list \<Rightarrow>
     state \<Rightarrow> world \<Rightarrow> (state \<times> world) option" where
  "walk_keys C a [] st w = Some (st, w)"
| "walk_keys C a (k # ks) st w =
     (case get_prop (heap w) a k of
        None \<Rightarrow> walk_keys C a ks st w
      | Some child \<Rightarrow>
          (case C (Some (a, k)) child st w of
             None \<Rightarrow> None
           | Some (x, st1, w1) \<Rightarrow> walk_keys C a ks st1 w1))"

definition walk_step :: "walk \<Rightarrow> env \<Rightarrow> walk" where
  "walk_step W E schema parents slot node0 st w =
     (case on_node W E schema slot node0 st w of
        None \<Rightarrow> None
      | Some ((node, keepGoing), st1, w1) \<Rightarrow>
          if \<not> keepGoing then Some (node, st1, w1)
          else (case node of
                  VObj a \<Rightarrow>
                    if node0 \<in> set parents then Some (node, st1, w1)
                    else (case walk_keys (W schema (parents @ [node0])) a
                                 (own_keys (heap w1) a) st1 w1 of
                            None \<Rightarrow> None
                          | Some (st2, w2) \<Rightarrow> Some (node, st2, w2))
                | _ \<Rightarrow> Some (node, st1, w1)))"

primrec walker :: "nat \<Rightarrow> env \<Rightarrow> walk" where
  "walker 0 E = (\<lambda>schema parents slot node0 st w. None)"
| "walker (Suc n) E = walk_step (walker n E) E"

definition derefSchema :: "nat \<Rightarrow> env \<Rightarrow> json \<Rightarrow> state \<Rightarrow> world \<Rightarrow> val res" where
  "derefSchema n E = derefSchema_with (walker n E) E"

text \<open>
  The calls of the callback. A call is the place of the node (none for the root), the node
  as \<open>traverse\<close> found it, and the state and the store at the moment the callback is
  entered.
\<close>

type_synonym call = "(addr \<times> string) option \<times> val \<times> state \<times> world"

definition call_slot :: "call \<Rightarrow> (addr \<times> string) option" where
  "call_slot c = fst c"

definition call_node :: "call \<Rightarrow> val" where
  "call_node c = fst (snd c)"

definition call_state :: "call \<Rightarrow> state" where
  "call_state c = fst (snd (snd c))"

definition call_world :: "call \<Rightarrow> world" where
  "call_world c = snd (snd (snd c))"

text \<open>
  The same walk, returning beside its result the calls of the callback it made, in the
  order in which it made them. Nothing else differs from \<open>walk_keys\<close>, \<open>walk_step\<close>
  and \<open>walker\<close>; the calls made while a loaded file is resolved, inside the callback,
  belong to the traversal of that file and are not listed here.
\<close>

type_synonym traced_walk =
  "val \<Rightarrow> val list \<Rightarrow> (addr \<times> string) option \<Rightarrow> val \<Rightarrow> state \<Rightarrow> world \<Rightarrow>
     ((val \<times> state \<times> world) \<times> call list) option"

fun walk_keys_traced ::
  "((addr \<times> string) option \<Rightarrow> val \<Rightarrow> state \<Rightarrow> world \<Rightarrow> ((val \<times> state \<times> world) \<times> call list) option) \<Rightarrow>
     addr \<Rightarrow> string list \<Rightarrow> state \<Rightarrow> world \<Rightarrow> ((state \<times> world) \<times> call list) option" where
  "walk_keys_traced C a [] st w = Some ((st, w), [])"
| "walk_keys_traced C a (k # ks) st w =
     (case get_prop (heap w) a k of
        None \<Rightarrow> walk_keys_traced C a ks st w
      | Some child \<Rightarrow>
          (case C (Some (a, k)) child st w of
             None \<Rightarrow> None
           | Some (r1, tr1) \<Rightarrow>
               (case walk_keys_traced C a ks (fst (snd r1)) (snd (snd r1)) of
                  None \<Rightarrow> None
                | Some (sw2, tr2) \<Rightarrow> Some (sw2, tr1 @ tr2))))"

definition walk_step_traced :: "traced_walk \<Rightarrow> walk \<Rightarrow> env \<Rightarrow> traced_walk" where
  "walk_step_traced T W E schema parents slot node0 st w =
     (case on_node W E schema slot node0 st w of
        None \<Rightarrow> None
      | Some ((node, keepGoing), st1, w1) \<Rightarrow>
          if \<not> keepGoing then Some ((node, st1, w1), [(slot, node0, st, w)])
          else (case node of
                  VObj a \<Rightarrow>
                    if node0 \<in> set parents then Some ((node, st1, w1), [(slot, node0, st, w)])
                    else (case walk_keys_traced (T schema (parents @ [node0])) a
                                 (own_keys (heap w1) a) st1 w1 of
                            None \<Rightarrow> None
                          | Some (sw2, tr) \<Rightarrow>
                              Some ((node, fst sw2, snd sw2), (slot, node0, st, w) # tr))
                | _ \<Rightarrow> Some ((node, st1, w1), [(slot, node0, st, w)])))"

primrec walker_traced :: "nat \<Rightarrow> env \<Rightarrow> traced_walk" where
  "walker_traced 0 E = (\<lambda>schema parents slot node0 st w. None)"
| "walker_traced (Suc n) E = walk_step_traced (walker_traced n E) (walker n E) E"

text \<open>\<open>derefSchema\<close> with the calls of its traversal; it makes none when it returns on entry.\<close>

definition derefSchema_traced ::
  "nat \<Rightarrow> env \<Rightarrow> json \<Rightarrow> state \<Rightarrow> world \<Rightarrow> ((val \<times> state \<times> world) \<times> call list) option" where
  "derefSchema_traced n E schema st w =
     (case checkLocalCircular E schema of
        Some check \<Rightarrow> Some ((VErr check, st, w), [])
      | None \<Rightarrow>
          if circular st then Some ((VErr (CircularFound (circularRefs st)), st, w), [])
          else (case error st of
                  Some e \<Rightarrow> Some ((VErr e, st, w), [])
                | None \<Rightarrow>
                    walker_traced n E (val_of (nextdoc w) [] schema) [] None
                      (val_of (nextdoc w) [] schema) st (enter_doc schema w)))"

text \<open>
  A list of calls is threaded from one state and store to another when its first call
  starts there, each later call starts in the state and the store that the callback left
  at the call before it, and the last call leaves the second.
\<close>

fun threaded :: "walk \<Rightarrow> env \<Rightarrow> val \<Rightarrow> call list \<Rightarrow> state \<times> world \<Rightarrow> state \<times> world \<Rightarrow> bool" where
  "threaded W E schema [] s fin = (s = fin)"
| "threaded W E schema (c # cs) s fin =
     (call_state c = fst s \<and> call_world c = snd s \<and>
      (case on_node W E schema (call_slot c) (call_node c) (call_state c) (call_world c) of
         None \<Rightarrow> False
       | Some r \<Rightarrow> threaded W E schema cs (snd r) fin))"

text \<open>The cycle flag is up or the error is set.\<close>

definition flagged :: "state \<Rightarrow> bool" where
  "flagged st = (circular st \<or> error st \<noteq> None)"

section \<open>The public operation\<close>

text \<open>
  \<open>clone(schema)\<close>, line 292, of the package \<open>clone\<close> that line 4 imports; the
  package is not part of the repository, and what stands here is its loop over the keys
  of a plain object. The library copies an object key by key: for each key
  \<open>i\<close> of the parent it looks at the property \<open>i\<close> of \<open>Object.prototype\<close>, skips the
  key when there is one without a setter, and otherwise assigns
  \<open>child[i] = clone(parent[i])\<close>. So the copy has none of the keys that name a property
  of \<open>Object.prototype\<close>: the data properties are skipped, and for \<open>__proto__\<close> the
  assignment runs the setter, which makes the value the prototype of the copy and creates
  no key. An array is copied index by index. What a copy inherits from a prototype it was
  given in this way is not part of the model, which knows own keys only.
\<close>

definition inherited_names :: "string list" where
  "inherited_names =
     [''__proto__'', ''constructor'', ''hasOwnProperty'', ''isPrototypeOf'',
      ''propertyIsEnumerable'', ''toLocaleString'', ''toString'', ''valueOf'',
      ''__defineGetter__'', ''__defineSetter__'', ''__lookupGetter__'', ''__lookupSetter__'']"

fun clone :: "json \<Rightarrow> json"
  and clone_list :: "json list \<Rightarrow> json list"
  and clone_entries :: "(string \<times> json) list \<Rightarrow> (string \<times> json) list" where
  "clone (JObj kvs) = JObj (clone_entries kvs)"
| "clone (JArr xs) = JArr (clone_list xs)"
| "clone JNull = JNull"
| "clone (JBool b) = JBool b"
| "clone (JNum i) = JNum i"
| "clone (JStr s) = JStr s"
| "clone_list [] = []"
| "clone_list (x # xs) = clone x # clone_list xs"
| "clone_entries [] = []"
| "clone_entries (kv # kvs) =
     (if fst kv \<in> set inherited_names then clone_entries kvs
      else (fst kv, clone (snd kv)) # clone_entries kvs)"

text \<open>
  \<open>deref\<close>, lines 267 to 301. \<open>_.defaults\<close> writes the missing \<open>baseFolder\<close> into the
  caller's object. \<open>JSON.stringify\<close> cannot throw on a document of the JSON data model,
  so the early return of its \<open>catch\<close> has no branch here; the fingerprint is taken of
  the caller's document, and the walk is made on its copy. \<open>c\<close> is the module's \<open>cache\<close>
  variable as the call finds it; the call replaces it by an empty one. An \<open>Error\<close>
  returned is \<open>Inl\<close>.
\<close>

definition defaults :: "env \<Rightarrow> options \<Rightarrow> options" where
  "defaults E options =
     (case baseFolder options of
        None \<Rightarrow> options\<lparr>baseFolder := Some (process_cwd E)\<rparr>
      | Some b \<Rightarrow> options)"

definition initial_state :: "env \<Rightarrow> json \<Rightarrow> options \<Rightarrow> state" where
  "initial_state E schema options =
     (let bf = (case baseFolder (defaults E options) of Some b \<Rightarrow> b | None \<Rightarrow> [])
      in \<lparr>circular = False, circularRefs = [],
          cwd = (if isAbsolute E bf then bf else resolve E (process_cwd E) bf),
          missing = [], history = [], current = md5 E schema, error = None\<rparr>)"

definition initial_world :: "env \<Rightarrow> (string \<Rightarrow> val option) \<Rightarrow> options \<Rightarrow> world" where
  "initial_world E c options =
     \<lparr>heap = (\<lambda>a. None), cache = c, opts = defaults E options, loads = [], nextdoc = 0\<rparr>"

definition deref ::
  "nat \<Rightarrow> env \<Rightarrow> (string \<Rightarrow> val option) \<Rightarrow> json \<Rightarrow> options \<Rightarrow> ((error + val) \<times> state \<times> world) option" where
  "deref n E c schema options =
     (case derefSchema n E (clone schema) (initial_state E schema options)
             ((initial_world E c options)\<lparr>cache := (\<lambda>k. None)\<rparr>) of
        None \<Rightarrow> None
      | Some (ret, st1, w1) \<Rightarrow>
          Some (case ret of
                  VErr e \<Rightarrow> Inl e
                | _ \<Rightarrow> (case error st1 of Some e \<Rightarrow> Inl e | None \<Rightarrow> Inr ret),
                st1, w1))"

text \<open>
  The document a value stands for, when it is a finite tree free of \<open>Error\<close> objects,
  read from the store to a given depth.
\<close>

fun readback :: "nat \<Rightarrow> heap \<Rightarrow> val \<Rightarrow> json option"
  and readback_entries :: "nat \<Rightarrow> heap \<Rightarrow> (string \<times> val) list \<Rightarrow> (string \<times> json) list option" where
  "readback n h VNull = Some JNull"
| "readback n h (VBool b) = Some (JBool b)"
| "readback n h (VNum i) = Some (JNum i)"
| "readback n h (VStr s) = Some (JStr s)"
| "readback n h (VErr e) = None"
| "readback 0 h (VObj a) = None"
| "readback (Suc n) h (VObj a) =
     (case h a of
        None \<Rightarrow> None
      | Some ob \<Rightarrow>
          (case readback_entries n h (snd ob) of
             None \<Rightarrow> None
           | Some kjs \<Rightarrow> Some (if fst ob then JArr (map snd kjs) else JObj kjs)))"
| "readback_entries n h [] = Some []"
| "readback_entries n h (kv # kvs) =
     (case readback n h (snd kv) of
        None \<Rightarrow> None
      | Some j \<Rightarrow>
          (case readback_entries n h kvs of
             None \<Rightarrow> None
           | Some kjs \<Rightarrow> Some ((fst kv, j) # kjs)))"

section \<open>A host for the examples\<close>

text \<open>
  A loader over a table of files, in the manner of \<open>loaders/file\<close>: the reference is
  resolved against \<open>options.baseFolder\<close> and the part before \<open>#\<close> names the file. The
  paths of the examples have no \<open>.\<close> or \<open>..\<close> segments, so resolving is joining.
\<close>

definition posix_resolve :: "string \<Rightarrow> string \<Rightarrow> string" where
  "posix_resolve a b = (if starts_with b ''/'' then b else a @ ''/'' @ b)"

definition posix_dirname :: "string \<Rightarrow> string" where
  "posix_dirname p =
     (case split_on (CHR ''/'') p of
        [] \<Rightarrow> ''.''
      | [x] \<Rightarrow> ''.''
      | x # y # ys \<Rightarrow> join ''/'' (butlast (x # y # ys)))"

definition file_loader :: "(string \<Rightarrow> json option) \<Rightarrow> string \<Rightarrow> options \<Rightarrow> json option" where
  "file_loader files refValue options =
     (let base = (case baseFolder options of
                    Some b \<Rightarrow> posix_resolve ''/work'' b
                  | None \<Rightarrow> ''/work'')
      in files (getRefFilePath (posix_resolve base refValue)))"

definition host :: "(string \<Rightarrow> json option) \<Rightarrow> env" where
  "host files =
     \<lparr>loader = file_loader files, resolve = posix_resolve, dirname = posix_dirname,
      isAbsolute = (\<lambda>p. starts_with p ''/''), process_cwd = ''/work'',
      md5 = (\<lambda>j. ''5d41402a''), isFileRef = (\<lambda>s. \<not> occurs_in ''://'' s)\<rparr>"

definition no_files :: "string \<Rightarrow> json option" where
  "no_files path = None"

definition default_options :: options where
  "default_options = \<lparr>baseFolder = None, failOnMissing = False\<rparr>"

definition strict_options :: options where
  "strict_options = \<lparr>baseFolder = None, failOnMissing = True\<rparr>"

definition ref :: "string \<Rightarrow> json" where
  "ref r = JObj [(''$ref'', JStr r)]"

definition empty_cache :: "string \<Rightarrow> val option" where
  "empty_cache k = None"

text \<open>
  What a finished call hands back: the error, or the document read from the store to
  depth \<open>n\<close>; the references it left reported as missing; the references it passed to
  the loader.
\<close>

definition result_doc :: "nat \<Rightarrow> ((error + val) \<times> state \<times> world) option \<Rightarrow> (error + json) option" where
  "result_doc n r =
     (case r of
        None \<Rightarrow> None
      | Some (x, st, w) \<Rightarrow>
          (case x of
             Inl e \<Rightarrow> Some (Inl e)
           | Inr v \<Rightarrow> (case readback n (heap w) v of Some j \<Rightarrow> Some (Inr j) | None \<Rightarrow> None)))"

definition result_missing :: "((error + val) \<times> state \<times> world) option \<Rightarrow> string list" where
  "result_missing r = (case r of None \<Rightarrow> [] | Some (x, st, w) \<Rightarrow> missing st)"

definition result_loads :: "((error + val) \<times> state \<times> world) option \<Rightarrow> string list" where
  "result_loads r = (case r of None \<Rightarrow> [] | Some (x, st, w) \<Rightarrow> map fst (loads w))"

section \<open>Example documents\<close>

definition cycle_doc :: json where
  "cycle_doc = JObj [(''a'', ref ''#/b''), (''b'', ref ''#/a'')]"

definition chain_doc :: json where
  "chain_doc = JObj [(''a'', ref ''#/b''), (''b'', ref ''#/c''), (''c'', JObj [(''x'', JNum 1)])]"

definition chain_doc_reordered :: json where
  "chain_doc_reordered =
     JObj [(''b'', ref ''#/c''), (''a'', ref ''#/b''), (''c'', JObj [(''x'', JNum 1)])]"

definition later_doc :: json where
  "later_doc = JObj [(''a'', ref ''#/b''), (''b'', JObj [(''x'', JNum 1)]), (''c'', ref ''#/a/x'')]"

definition missing_doc :: json where
  "missing_doc = ref ''#/missing/path''"

definition xa_doc :: json where
  "xa_doc = JObj [(''xa'', ref ''#/a'')]"

definition strict_doc :: json where
  "strict_doc = JObj [(''a'', ref ''#/nope''), (''b'', ref ''#/c''), (''c'', JNum 1)]"

definition inward_doc :: json where
  "inward_doc = JObj [(''a'', JObj [(''$ref'', JStr ''#/a/b''), (''b'', JNum 1)])]"

definition outward_doc :: json where
  "outward_doc = JObj [(''a'', JObj [(''b'', ref ''#/a'')])]"

definition twice_doc :: json where
  "twice_doc = JObj [(''a'', ref ''x.json''), (''b'', ref ''x.json#/k'')]"

definition one_file :: "string \<Rightarrow> json option" where
  "one_file path = (if path = ''/work/x.json'' then Some (JObj [(''k'', JNum 1)]) else None)"

definition nested_doc :: json where
  "nested_doc = JObj [(''a'', ref ''sub/x.json'')]"

definition nested_files :: "string \<Rightarrow> json option" where
  "nested_files path =
     (if path = ''/work/schemas/sub/x.json'' then Some (JObj [(''k'', ref ''y.json'')])
      else if path = ''/work/schemas/sub/y.json'' then Some (JObj [(''z'', JNum 2)])
      else None)"

definition schemas_options :: options where
  "schemas_options = \<lparr>baseFolder = Some ''schemas'', failOnMissing = False\<rparr>"

definition plain_doc :: json where
  "plain_doc = JObj [(''title'', JStr ''Widget''), (''tags'', JArr [JStr ''a'', JNull]), (''n'', JNum 0)]"

definition absent_doc :: json where
  "absent_doc = JObj [(''a'', ref ''x.json''), (''b'', ref ''x.json'')]"

definition proto_doc :: json where
  "proto_doc = JObj [(''__proto__'', JObj [(''x'', JNum 1)]), (''a'', JNum 1)]"

definition inner_ref_doc :: json where
  "inner_ref_doc =
     JObj [(''a'', ref ''#/b''), (''b'', JObj [(''k'', ref ''#/c'')]), (''c'', JObj [(''x'', JNum 1)])]"

definition inner_missing_doc :: json where
  "inner_missing_doc = JObj [(''a'', ref ''#/b''), (''b'', JObj [(''k'', ref ''#/nope'')])]"

text \<open>A world whose cache holds a document for \<open>/work/x.json\<close>.\<close>

definition warm_world :: world where
  "warm_world =
     (initial_world (host one_file) empty_cache default_options)
       \<lparr>cache := (\<lambda>k. if k = ''/work/x.json'' then Some (VNum 7) else None)\<rparr>"

text \<open>
  The state and the world of the strict call on \<open>strict_doc\<close> when the walk comes to
  \<open>b\<close>: the reference at \<open>a\<close> has been reported missing and the error is set.
\<close>

definition failed_state :: state where
  "failed_state =
     (initial_state (host no_files) strict_doc strict_options)
       \<lparr>missing := [''#/nope''], error := Some (MissingRef ''#/nope'')\<rparr>"

definition strict_world :: world where
  "strict_world = enter_doc strict_doc (initial_world (host no_files) empty_cache strict_options)"

section \<open>Notions for the proofs\<close>

text \<open>The nesting depth of a document, and the reference strings of its reference nodes.\<close>

fun depth :: "json \<Rightarrow> nat"
  and depth_list :: "json list \<Rightarrow> nat"
  and depth_entries :: "(string \<times> json) list \<Rightarrow> nat" where
  "depth (JObj kvs) = Suc (depth_entries kvs)"
| "depth (JArr xs) = Suc (depth_list xs)"
| "depth _ = 0"
| "depth_list [] = 0"
| "depth_list (x # xs) = max (depth x) (depth_list xs)"
| "depth_entries [] = 0"
| "depth_entries (kv # kvs) = max (depth (snd kv)) (depth_entries kvs)"

fun ref_strings :: "json \<Rightarrow> string list"
  and ref_strings_list :: "json list \<Rightarrow> string list"
  and ref_strings_entries :: "(string \<times> json) list \<Rightarrow> string list" where
  "ref_strings (JObj kvs) =
     (case getRefValue (JObj kvs) of Some r \<Rightarrow> [r] | None \<Rightarrow> []) @ ref_strings_entries kvs"
| "ref_strings (JArr xs) = ref_strings_list xs"
| "ref_strings _ = []"
| "ref_strings_list [] = []"
| "ref_strings_list (x # xs) = ref_strings x @ ref_strings_list xs"
| "ref_strings_entries [] = []"
| "ref_strings_entries (kv # kvs) = ref_strings (snd kv) @ ref_strings_entries kvs"

text \<open>No object anywhere in the document has a key \<open>$ref\<close>.\<close>

fun no_ref_keys :: "json \<Rightarrow> bool"
  and no_ref_keys_list :: "json list \<Rightarrow> bool"
  and no_ref_keys_entries :: "(string \<times> json) list \<Rightarrow> bool" where
  "no_ref_keys (JObj kvs) = (map_of kvs ''$ref'' = None \<and> no_ref_keys_entries kvs)"
| "no_ref_keys (JArr xs) = no_ref_keys_list xs"
| "no_ref_keys _ = True"
| "no_ref_keys_list [] = True"
| "no_ref_keys_list (x # xs) = (no_ref_keys x \<and> no_ref_keys_list xs)"
| "no_ref_keys_entries [] = True"
| "no_ref_keys_entries (kv # kvs) = (no_ref_keys (snd kv) \<and> no_ref_keys_entries kvs)"

text \<open>Reading a decimal numeral back.\<close>

definition read_nat :: "string \<Rightarrow> nat" where
  "read_nat s = foldl (\<lambda>a c. 10 * a + (of_char c - 48)) 0 s"

text \<open>One walk returns whatever another returns.\<close>

definition walk_le :: "walk \<Rightarrow> walk \<Rightarrow> bool" where
  "walk_le W W' =
     (\<forall>schema ps slot node st w r.
        W schema ps slot node st w = Some r \<longrightarrow> W' schema ps slot node st w = Some r)"

text \<open>
  A relation between the state and world before and after that every step of the engine
  respects: it is a preorder, each single assignment of the engine respects it, and so
  does the pair of assignments around the resolution of a loaded file.
\<close>

definition stable :: "env \<Rightarrow> (state \<times> world \<Rightarrow> state \<times> world \<Rightarrow> bool) \<Rightarrow> bool" where
  "stable E R =
     ((\<forall>s. R s s) \<and>
      (\<forall>a b c. R a b \<longrightarrow> R b c \<longrightarrow> R a c) \<and>
      (\<forall>st w schema. R (st, w) (st, enter_doc schema w)) \<and>
      (\<forall>st w full lv. truthy lv \<longrightarrow> R (st, w) (st, cache_put full lv w)) \<and>
      (\<forall>st w refVal. R (st, w) (st, log_load refVal w)) \<and>
      (\<forall>st w filePath sw2.
         R (enter_folder E filePath (st, w)) sw2 \<longrightarrow>
         R (st, w) (leave_folder (if folder_of E filePath \<noteq> [] then cwd st else []) sw2)) \<and>
      (\<forall>st w t v. R (st, w) (snd (addToHistory st t v), w)) \<and>
      (\<forall>st w t v. R (st, w) (setCurrent st t v, w)) \<and>
      (\<forall>st w r. R (st, w) (flag_circular r st, w)) \<and>
      (\<forall>st w. R (st, w) (pop_history st, w)) \<and>
      (\<forall>st w r b. R (st, w) (note_missing r b st, w)) \<and>
      (\<forall>st w r. R (st, w) (clear_missing r st, w)) \<and>
      (\<forall>st w slot x. R (st, w) (st, update_slot slot x w)))"

definition preserves :: "(state \<times> world \<Rightarrow> state \<times> world \<Rightarrow> bool) \<Rightarrow> walk \<Rightarrow> bool" where
  "preserves R W =
     (\<forall>schema ps slot node st w x st' w'.
        W schema ps slot node st w = Some (x, st', w') \<longrightarrow> R (st, w) (st', w'))"

text \<open>
  The history after is an initial part of the history before: what a step pushes it pops
  again, and it may pop more than it pushed, never less.
\<close>

definition history_shrinks :: "state \<times> world \<Rightarrow> state \<times> world \<Rightarrow> bool" where
  "history_shrinks a b = (\<exists>k. history (fst b) = take k (history (fst a)))"

definition keeps_error :: "state \<times> world \<Rightarrow> state \<times> world \<Rightarrow> bool" where
  "keeps_error a b =
     ((circular (fst a) \<longrightarrow> circular (fst b)) \<and>
      (error (fst a) \<noteq> None \<longrightarrow> error (fst b) \<noteq> None) \<and>
      ((circular (fst a) \<longrightarrow> error (fst a) \<noteq> None) \<longrightarrow>
       (circular (fst b) \<longrightarrow> error (fst b) \<noteq> None)))"



text \<open>
  Every node of a document with its path, in the order of the walk: the node, then its
  entries.
\<close>

fun subnodes :: "string list \<Rightarrow> json \<Rightarrow> (string list \<times> json) list"
  and subnodes_items :: "string list \<Rightarrow> nat \<Rightarrow> json list \<Rightarrow> (string list \<times> json) list"
  and subnodes_entries :: "string list \<Rightarrow> (string \<times> json) list \<Rightarrow> (string list \<times> json) list" where
  "subnodes p j =
     (p, j) # (case j of
                 JObj kvs \<Rightarrow> subnodes_entries p kvs
               | JArr xs \<Rightarrow> subnodes_items p 0 xs
               | _ \<Rightarrow> [])"
| "subnodes_items p i [] = []"
| "subnodes_items p i (x # xs) = subnodes (p @ [show_nat i]) x @ subnodes_items p (Suc i) xs"
| "subnodes_entries p [] = []"
| "subnodes_entries p (kv # kvs) = subnodes (p @ [fst kv]) (snd kv) @ subnodes_entries p kvs"

declare subnodes.simps(1) [simp del]

text \<open>
  A document all of whose reference nodes resolve inside it: each is local and not \<open>#\<close>,
  each place along its pointer, the last one included, holds a node that is not a
  reference node, and no reference node is itself the \<open>$ref\<close> entry of an object.
\<close>

definition plain_at :: "json \<Rightarrow> string list \<Rightarrow> bool" where
  "plain_at doc q = (case get doc q of Some t \<Rightarrow> getRefValue t = None | None \<Rightarrow> False)"

definition clean_target :: "json \<Rightarrow> string list \<Rightarrow> bool" where
  "clean_target doc q = list_all (\<lambda>i. plain_at doc (take (Suc i) q)) [0..<length q]"

definition resolves :: "json \<Rightarrow> string list \<times> json \<Rightarrow> bool" where
  "resolves doc pj =
     (case getRefValue (snd pj) of
        None \<Rightarrow> True
      | Some r \<Rightarrow>
          starts_with r ''#'' \<and> r \<noteq> ''#'' \<and> clean_target doc (pointer_segments r)
          \<and> (fst pj = [] \<or> last (fst pj) \<noteq> ''$ref''))"

definition all_resolve :: "json \<Rightarrow> bool" where
  "all_resolve doc = list_all (resolves doc) (subnodes [] doc)"

text \<open>
  A store that holds document number \<open>d\<close> and nothing else, after some local references
  have been replaced: the values that stand for nodes of the document, and the store in
  which every object of the document has its keys, each entry holding the child that
  stood there or, where that child is a reference node, the node that its pointer names.
\<close>

definition in_doc :: "nat \<Rightarrow> json \<Rightarrow> val \<Rightarrow> bool" where
  "in_doc d doc v = (\<exists>q t. get doc q = Some t \<and> v = val_of d q t)"

definition follows :: "nat \<Rightarrow> json \<Rightarrow> heap \<Rightarrow> bool" where
  "follows d doc h =
     ((\<forall>a ob. h a = Some ob \<longrightarrow> (\<exists>p j. a = (d, p) \<and> get doc p = Some j \<and> is_node j)) \<and>
      (\<forall>p j. get doc p = Some j \<longrightarrow> is_node j \<longrightarrow>
         (\<exists>ob. h (d, p) = Some ob \<and> fst ob = is_JArr j \<and> map fst (snd ob) = map fst (entries j))) \<and>
      (\<forall>p j k c. get doc p = Some j \<longrightarrow> map_of (entries j) k = Some c \<longrightarrow>
         get_prop h (d, p) k = Some (val_of d (p @ [k]) c) \<or>
         (\<exists>r t. getRefValue c = Some r \<and> get doc (pointer_segments r) = Some t \<and>
                get_prop h (d, p) k = Some (val_of d (pointer_segments r) t))))"

text \<open>
  From one store to a later one: an entry that holds no reference node stays as it is,
  and no entry appears.
\<close>

definition grows :: "heap \<Rightarrow> heap \<Rightarrow> bool" where
  "grows h h' =
     ((\<forall>a k v. get_prop h a k = Some v \<longrightarrow> node_ref h v = None \<longrightarrow> get_prop h' a k = Some v) \<and>
      (\<forall>a k. get_prop h' a k \<noteq> None \<longrightarrow> get_prop h a k \<noteq> None))"

text \<open>
  An object none of whose entries is a reference node; the objects met from a value by
  following entries without passing through the values in \<open>P\<close>; a value from which only
  objects of the first kind are met; a value that no entry holds; ancestors of which
  those that are reference nodes are held by no entry.
\<close>

definition settled_at :: "heap \<Rightarrow> addr \<Rightarrow> bool" where
  "settled_at h a = (\<forall>k v. get_prop h a k = Some v \<longrightarrow> node_ref h v = None)"

inductive reach :: "heap \<Rightarrow> val set \<Rightarrow> val \<Rightarrow> addr \<Rightarrow> bool" for h :: heap and P :: "val set" where
  here: "VObj a \<notin> P \<Longrightarrow> reach h P (VObj a) a"
| step: "VObj a \<notin> P \<Longrightarrow> get_prop h a k = Some v \<Longrightarrow> reach h P v y \<Longrightarrow> reach h P (VObj a) y"

code_pred reach .

definition settled :: "heap \<Rightarrow> val set \<Rightarrow> val \<Rightarrow> bool" where
  "settled h P v = (\<forall>y. reach h P v y \<longrightarrow> settled_at h y)"

definition unheld :: "heap \<Rightarrow> val \<Rightarrow> bool" where
  "unheld h x = (\<forall>a k. get_prop h a k \<noteq> Some x)"

definition no_alias :: "heap \<Rightarrow> val set \<Rightarrow> bool" where
  "no_alias h P = (\<forall>x\<in>P. node_ref h x \<noteq> None \<longrightarrow> unheld h x)"

text \<open>No object met from the value, the value itself included, is a reference node.\<close>

definition reference_free :: "heap \<Rightarrow> val \<Rightarrow> bool" where
  "reference_free h v = (\<forall>y. reach h {} v y \<longrightarrow> node_ref h (VObj y) = None)"

section \<open>Evaluating the engine\<close>

lemmas engine_defs =
  deref_def derefSchema_def derefSchema_with_def checkLocalCircular_def classify_def addEdge_def
  initial_state_def initial_world_def defaults_def default_options_def strict_options_def
  host_def ref_def walk_step_def on_node_def node_ref_def alloc_def obj_of_def addToHistory_def
  push_history_def setCurrent_def getRefSchema_def getRefPathValue_def pointer_segments_def
  get_prop_def own_keys_def set_prop_def toLowerCase_def lower_char_def Let_def finish_def
  cached_def getRefFilePath_def file_loader_def posix_resolve_def posix_dirname_def no_files_def
  index_keys_def result_doc_def result_missing_def result_loads_def empty_cache_def enter_doc_def
  cache_put_def pick_def folder_of_def set_base_def enter_folder_def leave_folder_def
  load_file_def log_load_def full_path_def flag_circular_def pop_history_def note_missing_def
  clear_missing_def locals.simps(1) inherited_names_def

lemmas example_defs =
  cycle_doc_def chain_doc_def chain_doc_reordered_def later_doc_def missing_doc_def xa_doc_def
  strict_doc_def inward_doc_def outward_doc_def twice_doc_def one_file_def nested_doc_def
  nested_files_def schemas_options_def plain_doc_def absent_doc_def
  warm_world_def failed_state_def strict_world_def

lemmas trace_defs =
  derefSchema_traced_def walk_step_traced_def call_slot_def call_node_def call_state_def
  call_world_def

section \<open>The static pass on the two-key cycle\<close>

text \<open>
  Claim C4. \<open>deref\<close> applied to the document \<open>{a: {$ref: #/b}, b: {$ref: #/a}}\<close> returns
  a circular-reference error, whatever the host, the options and the fuel. The error is
  the one \<open>checkLocalCircular\<close> gives, and the state and the world that come back are
  the initial ones: nothing entered the store, nothing was substituted, the loader was
  not called.
\<close>

theorem two_key_cycle_rejected:
  "deref n E c cycle_doc options =
     Some (Inl (CircularFromTo ''b'' ''#/a''), initial_state E cycle_doc options,
           (initial_world E c options)\<lparr>cache := (\<lambda>k. None)\<rparr>)
   \<and> is_CircularReference (CircularFromTo ''b'' ''#/a'')
   \<and> checkLocalCircular E cycle_doc = Some (CircularFromTo ''b'' ''#/a'')
   \<and> loads (initial_world E c options) = []"
  by (simp add: deref_def derefSchema_def derefSchema_with_def checkLocalCircular_def
      classify_def addEdge_def cycle_doc_def ref_def initial_world_def locals.simps(1)
      inherited_names_def)

section \<open>Isolation of the cache between calls\<close>

text \<open>
  Claim C8. The result of a call, with the state and the world it leaves, does not depend
  on what the module's cache holds when the call starts; so a call made after another
  call, whatever the first one left in the cache, gives what it gives when made alone.
\<close>

theorem cache_reset_at_call:
  "deref n E c schema options = deref n E c' schema options"
  by (simp add: deref_def initial_world_def)

section \<open>More fuel changes nothing\<close>

lemma walk_leD:
  "walk_le W W' \<Longrightarrow> W schema ps slot node st w = Some r \<Longrightarrow> W' schema ps slot node st w = Some r"
  unfolding walk_le_def by blast

lemma walk_le_refl: "walk_le W W"
  by (simp add: walk_le_def)

lemma walk_le_trans: "walk_le A B \<Longrightarrow> walk_le B C \<Longrightarrow> walk_le A C"
  unfolding walk_le_def by blast

lemma derefSchema_with_mono:
  "walk_le W W' \<Longrightarrow> derefSchema_with W E schema st w = Some r \<Longrightarrow>
   derefSchema_with W' E schema st w = Some r"
  unfolding derefSchema_with_def
  by (simp split: option.splits if_splits add: walk_leD)

lemma load_file_mono:
  assumes "walk_le W W'" "load_file W E refVal filePath full doc st w = Some r"
  shows "load_file W' E refVal filePath full doc st w = Some r"
proof -
  let ?sw = "enter_folder E filePath (st, w)"
  from assms(2) obtain y where y: "derefSchema_with W E doc (fst ?sw) (snd ?sw) = Some y"
    by (cases "derefSchema_with W E doc (fst ?sw) (snd ?sw)") (simp_all add: load_file_def Let_def)
  then have "derefSchema_with W' E doc (fst ?sw) (snd ?sw) = Some y"
    using assms(1) by (rule derefSchema_with_mono[rotated])
  with y assms(2) show ?thesis
    by (simp add: load_file_def Let_def)
qed

text \<open>The branches of \<open>getRefSchema\<close>, one equation each.\<close>

lemma getRefSchema_Local:
  "getRefSchema W E refVal Local parent st w = Some (getRefPathValue (heap w) parent refVal, st, w)"
  by (simp add: getRefSchema_def)

lemma getRefSchema_Unsupported:
  "getRefSchema W E refVal Unsupported parent st w = Some (None, st, w)"
  by (simp add: getRefSchema_def)

lemma getRefSchema_hit:
  "cached w (full_path E st (getRefFilePath refVal)) = Some lv \<Longrightarrow>
   getRefSchema W E refVal File parent st w =
     finish refVal (full_path E st (getRefFilePath refVal)) lv st w"
  by (simp add: getRefSchema_def)

lemma getRefSchema_miss:
  "cached w (full_path E st (getRefFilePath refVal)) = None \<Longrightarrow>
   loader E refVal (opts w) = None \<Longrightarrow>
   getRefSchema W E refVal File parent st w = Some (None, st, log_load refVal w)"
  by (simp add: getRefSchema_def)

lemma getRefSchema_falsy:
  "cached w (full_path E st (getRefFilePath refVal)) = None \<Longrightarrow>
   loader E refVal (opts w) = Some doc \<Longrightarrow> \<not> truthy_json doc \<Longrightarrow>
   getRefSchema W E refVal File parent st w = Some (None, st, log_load refVal w)"
  by (simp add: getRefSchema_def)

lemma getRefSchema_load:
  "cached w (full_path E st (getRefFilePath refVal)) = None \<Longrightarrow>
   loader E refVal (opts w) = Some doc \<Longrightarrow> truthy_json doc \<Longrightarrow>
   getRefSchema W E refVal File parent st w =
     load_file W E refVal (getRefFilePath refVal) (full_path E st (getRefFilePath refVal)) doc st
       (log_load refVal w)"
  by (simp add: getRefSchema_def Let_def)

lemma getRefSchema_split:
  obtains (Local) "refType = Local"
  | (Unsupported) "refType = Unsupported"
  | (Hit) lv where "refType = File" "cached w (full_path E st (getRefFilePath refVal)) = Some lv"
  | (Miss) "refType = File" "cached w (full_path E st (getRefFilePath refVal)) = None"
      "loader E refVal (opts w) = None"
  | (Falsy) doc where "refType = File" "cached w (full_path E st (getRefFilePath refVal)) = None"
      "loader E refVal (opts w) = Some doc" "\<not> truthy_json doc"
  | (Load) doc where "refType = File" "cached w (full_path E st (getRefFilePath refVal)) = None"
      "loader E refVal (opts w) = Some doc" "truthy_json doc"
proof (cases refType)
  case File
  show ?thesis
  proof (cases "cached w (full_path E st (getRefFilePath refVal))")
    case None
    show ?thesis
    proof (cases "loader E refVal (opts w)")
      case (Some doc)
      with File None show ?thesis using Falsy Load by (cases "truthy_json doc") blast+
    qed (use File None Miss in blast)
  qed (use File Hit in blast)
qed (use Local Unsupported in blast)+

lemma getRefSchema_mono:
  assumes "walk_le W W'" "getRefSchema W E refVal refType parent st w = Some r"
  shows "getRefSchema W' E refVal refType parent st w = Some r"
proof (cases rule: getRefSchema_split[where refType=refType and w=w and E=E and st=st and refVal=refVal])
  case (Load doc)
  with assms(2) load_file_mono[OF assms(1)] show ?thesis
    by (simp add: getRefSchema_load)
qed (use assms(2) in \<open>simp_all add: getRefSchema_Local getRefSchema_Unsupported getRefSchema_hit
      getRefSchema_miss getRefSchema_falsy\<close>)

lemma on_node_mono:
  assumes "walk_le W W'" "on_node W E schema slot node st w = Some r"
  shows "on_node W' E schema slot node st w = Some r"
proof (cases "node_ref (heap w) node")
  case None
  with assms(2) show ?thesis by (simp add: on_node_def)
next
  case (Some refVal)
  let ?ok = "addToHistory st (classify E refVal) refVal"
  show ?thesis
  proof (cases "fst ?ok")
    case False
    with Some assms(2) show ?thesis by (simp add: on_node_def Let_def)
  next
    case True
    let ?g = "\<lambda>W. getRefSchema W E refVal (classify E refVal) schema
                 (setCurrent (snd ?ok) (classify E refVal) refVal) w"
    from assms(2) Some True obtain y where y: "?g W = Some y"
      by (cases "?g W") (simp_all add: on_node_def Let_def)
    then have "?g W' = Some y" using assms(1) by (rule getRefSchema_mono[rotated])
    with y assms(2) Some True show ?thesis by (simp add: on_node_def Let_def)
  qed
qed

lemma walk_keys_mono:
  assumes "\<And>slot node st w r. C slot node st w = Some r \<Longrightarrow> C' slot node st w = Some r"
  shows "walk_keys C a ks st w = Some r \<Longrightarrow> walk_keys C' a ks st w = Some r"
proof (induction ks arbitrary: st w)
  case Nil
  then show ?case by simp
next
  case (Cons k ks)
  show ?case
  proof (cases "get_prop (heap w) a k")
    case None
    with Cons show ?thesis by simp
  next
    case (Some child)
    from Cons.prems Some obtain y where y: "C (Some (a, k)) child st w = Some y"
      by (cases "C (Some (a, k)) child st w") simp_all
    then have y': "C' (Some (a, k)) child st w = Some y" by (rule assms)
    obtain x st1 w1 where [simp]: "y = (x, st1, w1)" by (cases y) auto
    from Cons.prems Some y have "walk_keys C a ks st1 w1 = Some r" by simp
    then have "walk_keys C' a ks st1 w1 = Some r" by (rule Cons.IH)
    with Some y' show ?thesis by simp
  qed
qed

lemma walk_step_mono:
  assumes "walk_le W W'"
  shows "walk_le (walk_step W E) (walk_step W' E)"
  unfolding walk_le_def
proof (intro allI impI)
  fix schema ps slot node st w r
  assume a: "walk_step W E schema ps slot node st w = Some r"
  then obtain y where y: "on_node W E schema slot node st w = Some y"
    by (cases "on_node W E schema slot node st w") (simp_all add: walk_step_def)
  then have y': "on_node W' E schema slot node st w = Some y"
    using assms by (rule on_node_mono[rotated])
  obtain nd keep st1 w1 where [simp]: "y = ((nd, keep), st1, w1)" by (cases y) auto
  show "walk_step W' E schema ps slot node st w = Some r"
  proof (cases "keep \<and> (\<exists>a. nd = VObj a) \<and> node \<notin> set ps")
    case False
    with a y y' show ?thesis by (auto simp add: walk_step_def split: val.splits)
  next
    case True
    then obtain a' where nd: "nd = VObj a'" by blast
    let ?k = "\<lambda>W. walk_keys (W schema (ps @ [node])) a' (own_keys (heap w1) a') st1 w1"
    from a y True nd obtain z where z: "?k W = Some z"
      by (cases "?k W") (simp_all add: walk_step_def)
    have "?k W' = Some z"
      by (rule walk_keys_mono[OF _ z]) (rule walk_leD[OF assms])
    with z a y y' True nd show ?thesis by (simp add: walk_step_def)
  qed
qed

lemma walker_Suc_le: "walk_le (walker n E) (walker (Suc n) E)"
proof (induction n)
  case 0
  show ?case by (simp add: walk_le_def)
next
  case (Suc n)
  then show ?case using walk_step_mono by simp
qed

lemma walker_le: "n \<le> m \<Longrightarrow> walk_le (walker n E) (walker m E)"
proof (induction m)
  case 0
  then show ?case by (simp add: walk_le_refl)
next
  case (Suc m)
  show ?case
  proof (cases "n = Suc m")
    case True
    then show ?thesis by (simp add: walk_le_refl)
  next
    case False
    with Suc have "walk_le (walker n E) (walker m E)" by simp
    then show ?thesis using walker_Suc_le walk_le_trans by blast
  qed
qed

lemma derefSchema_fuel:
  "derefSchema n E schema st w = Some r \<Longrightarrow> n \<le> m \<Longrightarrow> derefSchema m E schema st w = Some r"
  unfolding derefSchema_def using derefSchema_with_mono walker_le by blast

text \<open>A call that returns with some fuel returns the same with any more.\<close>

lemma deref_fuel:
  assumes "deref n E c schema options = Some r" "n \<le> m"
  shows "deref m E c schema options = Some r"
proof -
  let ?d = "\<lambda>n. derefSchema n E (clone schema) (initial_state E schema options)
             ((initial_world E c options)\<lparr>cache := (\<lambda>k. None)\<rparr>)"
  from assms(1) obtain y where y: "?d n = Some y" by (cases "?d n") (simp_all add: deref_def)
  then have "?d m = Some y" using assms(2) by (rule derefSchema_fuel)
  with y assms(1) show ?thesis by (simp add: deref_def)
qed

section \<open>What every step respects\<close>

lemma stable_refl: "stable E R \<Longrightarrow> R s s"
  unfolding stable_def by meson

lemma stable_trans: "stable E R \<Longrightarrow> R a b \<Longrightarrow> R b c \<Longrightarrow> R a c"
  unfolding stable_def by meson

lemma preservesD:
  "preserves R W \<Longrightarrow> W schema ps slot node st w = Some (x, st', w') \<Longrightarrow> R (st, w) (st', w')"
  unfolding preserves_def by blast

lemma derefSchema_with_stable:
  assumes "stable E R" "preserves R W" "derefSchema_with W E schema st w = Some (x, st', w')"
  shows "R (st, w) (st', w')"
proof (cases "checkLocalCircular E schema = None \<and> \<not> circular st \<and> error st = None")
  case False
  with assms(3) have "st' = st \<and> w' = w"
    by (auto simp: derefSchema_with_def split: option.splits if_splits)
  with assms(1) show ?thesis by (simp add: stable_refl)
next
  case True
  with assms(3) have "W (val_of (nextdoc w) [] schema) [] None (val_of (nextdoc w) [] schema) st
                      (enter_doc schema w) = Some (x, st', w')"
    by (simp add: derefSchema_with_def)
  then have "R (st, enter_doc schema w) (st', w')" using assms(2) by (rule preservesD[rotated])
  moreover have "R (st, w) (st, enter_doc schema w)" using assms(1) by (simp add: stable_def)
  ultimately show ?thesis using assms(1) stable_trans by blast
qed

lemma finish_stable:
  assumes "stable E R" "finish refVal full lv st w = Some (x, st', w')"
  shows "R (st, w) (st', w')"
proof (cases "truthy lv")
  case True
  with assms(2) have "st' = st" "w' = cache_put full lv w" by (simp_all add: finish_def)
  with assms(1) True show ?thesis by (simp add: stable_def)
next
  case False
  with assms(2) have "st' = st" "w' = w" by (simp_all add: finish_def)
  with assms(1) show ?thesis by (simp add: stable_refl)
qed

lemma load_file_stable:
  assumes "stable E R" "preserves R W"
    and "load_file W E refVal filePath full doc st w = Some (x, st', w')"
  shows "R (st, w) (st', w')"
proof -
  let ?old = "if folder_of E filePath \<noteq> [] then cwd st else []"
  let ?sw = "enter_folder E filePath (st, w)"
  from assms(3) obtain lv st2 w2 where
    d: "derefSchema_with W E doc (fst ?sw) (snd ?sw) = Some (lv, st2, w2)"
    by (cases "derefSchema_with W E doc (fst ?sw) (snd ?sw)") (auto simp: load_file_def Let_def)
  let ?sw3 = "leave_folder ?old (st2, w2)"
  from assms(3) d have f: "finish refVal full lv (fst ?sw3) (snd ?sw3) = Some (x, st', w')"
    by (simp add: load_file_def Let_def)
  have 2: "R ?sw (st2, w2)" using derefSchema_with_stable[OF assms(1,2) d] by simp
  have 3: "R (st, w) ?sw3" using assms(1) 2 unfolding stable_def by meson
  have 4: "R ?sw3 (st', w')" using finish_stable[OF assms(1) f] by simp
  from 3 4 show ?thesis using stable_trans[OF assms(1)] by blast
qed

lemma getRefSchema_stable:
  assumes "stable E R" "preserves R W"
    and "getRefSchema W E refVal refType parent st w = Some (x, st', w')"
  shows "R (st, w) (st', w')"
proof (cases rule: getRefSchema_split[where refType=refType and w=w and E=E and st=st and refVal=refVal])
  case Local
  with assms(3) have "st' = st" "w' = w" by (simp_all add: getRefSchema_Local)
  with assms(1) show ?thesis by (simp add: stable_refl)
next
  case Unsupported
  with assms(3) have "st' = st" "w' = w" by (simp_all add: getRefSchema_Unsupported)
  with assms(1) show ?thesis by (simp add: stable_refl)
next
  case (Hit lv)
  with assms(3) show ?thesis using finish_stable[OF assms(1)] by (simp add: getRefSchema_hit)
next
  case Miss
  with assms(3) have "st' = st" "w' = log_load refVal w" by (simp_all add: getRefSchema_miss)
  with assms(1) show ?thesis by (simp add: stable_def)
next
  case (Falsy doc)
  with assms(3) have "st' = st" "w' = log_load refVal w" by (simp_all add: getRefSchema_falsy)
  with assms(1) show ?thesis by (simp add: stable_def)
next
  case (Load doc)
  with assms(3) have "R (st, log_load refVal w) (st', w')"
    using load_file_stable[OF assms(1,2)] by (simp add: getRefSchema_load)
  moreover have "R (st, w) (st, log_load refVal w)" using assms(1) by (simp add: stable_def)
  ultimately show ?thesis using stable_trans[OF assms(1)] by blast
qed

lemma on_node_stable:
  assumes "stable E R" "preserves R W" "on_node W E schema slot node st w = Some (x, st', w')"
  shows "R (st, w) (st', w')"
proof (cases "node_ref (heap w) node")
  case None
  with assms(3) have "st' = st" "w' = w" by (simp_all add: on_node_def)
  with assms(1) show ?thesis by (simp add: stable_refl)
next
  case (Some refVal)
  let ?t = "classify E refVal"
  let ?ok = "addToHistory st ?t refVal"
  have h: "R (st, w) (snd ?ok, w)" using assms(1) by (simp add: stable_def)
  show ?thesis
  proof (cases "fst ?ok")
    case False
    with Some assms(3) have e: "st' = flag_circular refVal (snd ?ok)" "w' = update_slot slot node w"
      by (simp_all add: on_node_def Let_def)
    have "R (snd ?ok, w) (flag_circular refVal (snd ?ok), w)" using assms(1) by (simp add: stable_def)
    moreover have "R (flag_circular refVal (snd ?ok), w) (st', w')"
      using assms(1) e by (simp add: stable_def)
    ultimately show ?thesis using h stable_trans[OF assms(1)] by blast
  next
    case True
    let ?ist = "setCurrent (snd ?ok) ?t refVal"
    from assms(3) Some True obtain nv st1 w1 where
      g: "getRefSchema W E refVal ?t schema ?ist w = Some (nv, st1, w1)"
      by (cases "getRefSchema W E refVal ?t schema ?ist w") (auto simp: on_node_def Let_def)
    have 1: "R (snd ?ok, w) (?ist, w)" using assms(1) by (simp add: stable_def)
    have 2: "R (?ist, w) (st1, w1)" by (rule getRefSchema_stable[OF assms(1,2) g])
    have 3: "R (st1, w1) (pop_history st1, w1)" using assms(1) by (simp add: stable_def)
    have 4: "R (pop_history st1, w1) (st', w')"
    proof (cases nv)
      case None
      with assms(3) Some True g have e:
        "st' = note_missing refVal (failOnMissing (opts w1)) (pop_history st1)"
        "w' = update_slot slot node w1"
        by (simp_all add: on_node_def Let_def)
      have "R (pop_history st1, w1) (st', w1)" using assms(1) e by (simp add: stable_def)
      moreover have "R (st', w1) (st', w')" using assms(1) e by (simp add: stable_def)
      ultimately show ?thesis using stable_trans[OF assms(1)] by blast
    next
      case (Some v)
      with assms(3) \<open>node_ref (heap w) node = Some refVal\<close> True g have e:
        "st' = clear_missing refVal (pop_history st1)" "w' = update_slot slot v w1"
        by (simp_all add: on_node_def Let_def)
      have "R (pop_history st1, w1) (st', w1)" using assms(1) e by (simp add: stable_def)
      moreover have "R (st', w1) (st', w')" using assms(1) e by (simp add: stable_def)
      ultimately show ?thesis using stable_trans[OF assms(1)] by blast
    qed
    from h 1 2 3 4 show ?thesis using stable_trans[OF assms(1)] by blast
  qed
qed

lemma walk_keys_stable:
  assumes "stable E R"
    and "\<And>slot node st w x st' w'. C slot node st w = Some (x, st', w') \<Longrightarrow> R (st, w) (st', w')"
  shows "walk_keys C a ks st w = Some (st', w') \<Longrightarrow> R (st, w) (st', w')"
proof (induction ks arbitrary: st w)
  case Nil
  with assms(1) show ?case by (simp add: stable_refl)
next
  case (Cons k ks)
  show ?case
  proof (cases "get_prop (heap w) a k")
    case None
    with Cons show ?thesis by simp
  next
    case (Some child)
    from Cons.prems Some obtain x st1 w1 where y: "C (Some (a, k)) child st w = Some (x, st1, w1)"
      by (cases "C (Some (a, k)) child st w") auto
    from Cons.prems Some y have "walk_keys C a ks st1 w1 = Some (st', w')" by simp
    then have "R (st1, w1) (st', w')" by (rule Cons.IH)
    moreover have "R (st, w) (st1, w1)" using y by (rule assms(2))
    ultimately show ?thesis using stable_trans[OF assms(1)] by blast
  qed
qed

lemma walk_step_stable:
  assumes "stable E R" "preserves R W"
  shows "preserves R (walk_step W E)"
  unfolding preserves_def
proof (intro allI impI)
  fix schema ps slot node st w x st' w'
  assume a: "walk_step W E schema ps slot node st w = Some (x, st', w')"
  then obtain nd keep st1 w1 where y: "on_node W E schema slot node st w = Some ((nd, keep), st1, w1)"
    by (cases "on_node W E schema slot node st w") (auto simp: walk_step_def)
  have 1: "R (st, w) (st1, w1)" by (rule on_node_stable[OF assms y])
  show "R (st, w) (st', w')"
  proof (cases "keep \<and> (\<exists>a. nd = VObj a) \<and> node \<notin> set ps")
    case False
    then consider "\<not> keep" | "keep" "\<forall>a. nd \<noteq> VObj a"
      | a' where "keep" "nd = VObj a'" "node \<in> set ps"
      by blast
    then have "st' = st1 \<and> w' = w1"
    proof cases
      case 1
      with a y show ?thesis by (simp add: walk_step_def)
    next
      case 2
      with a y show ?thesis by (cases nd) (simp_all add: walk_step_def)
    next
      case 3
      with a y show ?thesis by (simp add: walk_step_def)
    qed
    with 1 show ?thesis by simp
  next
    case True
    then obtain a' where nd: "nd = VObj a'" by blast
    let ?k = "walk_keys (W schema (ps @ [node])) a' (own_keys (heap w1) a') st1 w1"
    from a y True nd obtain st2 w2 where z: "?k = Some (st2, w2)"
      by (cases ?k) (auto simp: walk_step_def)
    with a y True nd have e: "st' = st2" "w' = w2" by (simp_all add: walk_step_def)
    have "R (st1, w1) (st2, w2)"
      by (rule walk_keys_stable[OF assms(1) _ z]) (rule preservesD[OF assms(2)])
    with 1 e show ?thesis using stable_trans[OF assms(1)] by blast
  qed
qed

lemma walker_stable: "stable E R \<Longrightarrow> preserves R (walker n E)"
proof (induction n)
  case 0
  show ?case by (simp add: preserves_def)
next
  case (Suc n)
  then show ?case using walk_step_stable by simp
qed

lemma derefSchema_stable:
  "stable E R \<Longrightarrow> derefSchema n E schema st w = Some (x, st', w') \<Longrightarrow> R (st, w) (st', w')"
  unfolding derefSchema_def using derefSchema_with_stable walker_stable by blast

lemmas prim_defs =
  enter_doc_def cache_put_def log_load_def enter_folder_def leave_folder_def set_base_def
  addToHistory_def push_history_def setCurrent_def flag_circular_def pop_history_def
  note_missing_def clear_missing_def cached_def Let_def

lemma update_slot_fields [simp]:
  "cache (update_slot slot x w) = cache w"
  "opts (update_slot slot x w) = opts w"
  "loads (update_slot slot x w) = loads w"
  "nextdoc (update_slot slot x w) = nextdoc w"
  by (cases slot; auto)+

lemma stable_keeps_error: "stable E keeps_error"
  unfolding stable_def keeps_error_def
  by (simp add: prim_defs)



lemma initial_state_fields [simp]:
  "circular (initial_state E schema options) = False"
  "circularRefs (initial_state E schema options) = []"
  "missing (initial_state E schema options) = []"
  "history (initial_state E schema options) = []"
  "current (initial_state E schema options) = md5 E schema"
  "error (initial_state E schema options) = None"
  by (simp_all add: initial_state_def Let_def)

lemma initial_world_fields [simp]:
  "opts (initial_world E c options) = defaults E options"
  "loads (initial_world E c options) = []"
  "cache (initial_world E c options) = c"
  "nextdoc (initial_world E c options) = 0"
  by (simp_all add: initial_world_def)

section \<open>The cache of loaded documents\<close>










section \<open>The options object\<close>




section \<open>A reference to an ancestor\<close>

lemma find_circular_hit:
  "\<exists>x\<in>set ls. occurs_in (drop 2 (snd x) @ ''/'') (fst x @ ''/'') \<Longrightarrow> find_circular g ls \<noteq> None"
proof (induction ls arbitrary: g)
  case Nil
  then show ?case by simp
next
  case (Cons x ls)
  show ?case
  proof (cases "addEdge g (fst x @ ''/'') (drop 2 (snd x) @ ''/'')")
    case None
    then show ?thesis by (simp add: Let_def)
  next
    case (Some g')
    show ?thesis
    proof (cases "occurs_in (drop 2 (snd x) @ ''/'') (fst x @ ''/'')")
      case True
      with Some show ?thesis by (simp add: Let_def)
    next
      case False
      with Cons.prems have "\<exists>y\<in>set ls. occurs_in (drop 2 (snd y) @ ''/'') (fst y @ ''/'')" by auto
      then have "find_circular g' ls \<noteq> None" by (rule Cons.IH)
      with Some False show ?thesis by (simp add: Let_def)
    qed
  qed
qed

lemma locals_entries_mono:
  "(k, c) \<in> set kvs \<Longrightarrow> set (locals E (p @ [k]) c) \<subseteq> set (locals_entries E p kvs)"
  by (induction kvs) auto

lemma locals_items_mono:
  "i < length xs \<Longrightarrow>
   set (locals E (p @ [show_nat (i0 + i)]) (xs ! i)) \<subseteq> set (locals_items E p i0 xs)"
proof (induction xs arbitrary: i i0)
  case Nil
  then show ?case by simp
next
  case (Cons x xs)
  show ?case
  proof (cases i)
    case 0
    then show ?thesis by auto
  next
    case (Suc j)
    with Cons.prems have "j < length xs" by simp
    from Cons.IH[OF this, of "Suc i0"] Suc show ?thesis by auto
  qed
qed

lemma entries_JArr_D:
  assumes "map_of (entries (JArr xs)) k = Some c"
  shows "\<exists>i<length xs. k = show_nat i \<and> c = xs ! i"
proof -
  from assms have "(k, c) \<in> set (zip (index_keys xs) xs)" by (auto dest: map_of_SomeD)
  then obtain i where "i < length xs" "index_keys xs ! i = k" "xs ! i = c"
    by (auto simp: set_zip index_keys_def)
  then show ?thesis by (auto simp: index_keys_def)
qed

lemma locals_JObj: "set (locals_entries E p kvs) \<subseteq> set (locals E p (JObj kvs))"
  by (simp add: locals.simps(1))

lemma locals_JArr: "set (locals_items E p 0 xs) \<subseteq> set (locals E p (JArr xs))"
  by (simp add: locals.simps(1))

lemma locals_self:
  "getRefValue j = Some r \<Longrightarrow> classify E r = Local \<Longrightarrow> r \<noteq> [] \<Longrightarrow>
   (join ''/'' p, r) \<in> set (locals E p j)"
  by (simp add: locals.simps(1))

lemma locals_child:
  assumes "map_of (entries j) k = Some c"
  shows "set (locals E (p @ [k]) c) \<subseteq> set (locals E p j)"
proof (cases j)
  case (JObj kvs)
  with assms have "(k, c) \<in> set kvs" by (auto dest: map_of_SomeD)
  from locals_entries_mono[OF this] JObj locals_JObj show ?thesis by blast
next
  case (JArr xs)
  with assms obtain i where i: "i < length xs" "k = show_nat i" "c = xs ! i"
    using entries_JArr_D by blast
  from locals_items_mono[OF i(1), of E p 0] i JArr locals_JArr[of E p xs] show ?thesis by auto
qed (use assms in simp_all)

lemma locals_member:
  "get j q = Some node \<Longrightarrow> getRefValue node = Some r \<Longrightarrow> starts_with r ''#'' \<Longrightarrow>
   (join ''/'' (p @ q), r) \<in> set (locals E p j)"
proof (induction q arbitrary: p j)
  case Nil
  then have "r \<noteq> []" by auto
  with Nil show ?case by (simp add: classify_def locals_self)
next
  case (Cons k q)
  from Cons.prems(1) obtain c where c: "map_of (entries j) k = Some c" "get c q = Some node"
    by (auto split: option.splits)
  from Cons.IH[OF c(2) Cons.prems(2,3), of "p @ [k]"] locals_child[OF c(1), of E p]
  show ?case by auto
qed

lemma checkLocalCircular_hit:
  assumes "(f, r) \<in> set (locals E [] doc)" "occurs_in (drop 2 r @ ''/'') (f @ ''/'')"
  shows "\<exists>e. checkLocalCircular E doc = Some e \<and> is_CircularReference e"
proof -
  let ?ls = "locals E [] doc"
  from assms(1) have ne: "?ls \<noteq> []" by auto
  show ?thesis
  proof (cases "list_ex (\<lambda>elem. snd elem = ''#'') ?ls")
    case True
    with ne show ?thesis by (simp add: checkLocalCircular_def Let_def)
  next
    case False
    from assms have "\<exists>x\<in>set ?ls. occurs_in (drop 2 (snd x) @ ''/'') (fst x @ ''/'')" by force
    then obtain chk where "find_circular [] ?ls = Some chk" using find_circular_hit by blast
    with ne False show ?thesis by (simp add: checkLocalCircular_def Let_def)
  qed
qed

lemma deref_static_error:
  "checkLocalCircular E (clone doc) = Some e \<Longrightarrow>
   deref n E c doc options =
     Some (Inl e, initial_state E doc options, (initial_world E c options)\<lparr>cache := (\<lambda>k. None)\<rparr>)"
  by (simp add: deref_def derefSchema_def derefSchema_with_def)

text \<open>
  A pointer that names the node's own place or a place above it occurs, with its closing
  \<open>/\<close>, at the start of the node's path.
\<close>

lemma join_Cons: "xs \<noteq> [] \<Longrightarrow> join sep (x # xs) = x @ sep @ join sep xs"
  by (cases xs) auto

lemma join_append:
  "q \<noteq> [] \<Longrightarrow>
   join ''/'' (q @ q') @ ''/'' =
     join ''/'' q @ ''/'' @ (if q' = [] then [] else join ''/'' q' @ ''/'')"
proof (induction q)
  case Nil
  then show ?case by simp
next
  case (Cons x q)
  show ?case
  proof (cases "q = []")
    case True
    then show ?thesis by (cases q') (simp_all add: join_Cons)
  next
    case False
    with Cons.IH show ?thesis by (simp add: join_Cons)
  qed
qed

lemma occurs_in_start: "starts_with s t \<Longrightarrow> occurs_in t s"
  by (cases s; cases t) auto

lemma starts_with_append: "starts_with (t @ s) t"
  by (induction t) auto

text \<open>
  Claim C6, as stated, at the document \<open>{a: {$ref: #/a/b, b: 1}}\<close>. The path \<open>a\<close> of the
  reference node is a literal prefix of its pointer path \<open>a/b\<close>: an ancestor referring
  to its descendant. The static pass accepts the document, and the call returns
  \<open>{a: 1}\<close>.
\<close>

theorem descendant_target_accepted:
  "checkLocalCircular (host no_files) inward_doc = None
   \<and> result_doc 2 (deref 4 (host no_files) empty_cache inward_doc default_options) =
       Some (Inr (JObj [(''a'', JNum 1)]))
   \<and> get inward_doc [''a''] = Some (JObj [(''$ref'', JStr ''#/a/b''), (''b'', JNum 1)])
   \<and> starts_with (''a/b'' @ ''/'') (join ''/'' [''a''] @ ''/'')"
  by (simp add: engine_defs example_defs eval_nat_numeral)

lemma starts_with_refl: "starts_with t t"
  by (induction t) auto

lemma occurs_in_end: "occurs_in t (s @ t)"
  by (induction s) (auto simp: occurs_in_start starts_with_refl)

lemma split_on_nonempty: "split_on c s \<noteq> []"
  by (induction s) (auto split: list.splits)

lemma join_head: "join sep ((x # y) # ys) = x # join sep (y # ys)"
  by (cases ys) simp_all

lemma join_split_on: "join [c] (split_on c s) = s"
proof (induction s)
  case Nil
  show ?case by simp
next
  case (Cons x xs)
  show ?case
  proof (cases "x = c")
    case True
    with Cons show ?thesis by (simp add: join_Cons split_on_nonempty)
  next
    case False
    obtain y ys where s: "split_on c xs = y # ys"
      using split_on_nonempty[of c xs] by (cases "split_on c xs") auto
    with Cons False show ?thesis by (simp add: join_head)
  qed
qed

lemma pointer_prefix_occurs:
  assumes "starts_with r ''#''"
  shows "occurs_in (drop 2 r @ ''/'') (join ''/'' (pointer_segments r @ q') @ ''/'')"
proof -
  from assms obtain s where r: "r = CHR ''#'' # s" by (cases r) auto
  show ?thesis
  proof (cases s)
    case Nil
    with r show ?thesis using occurs_in_end[of "''/''"] by simp
  next
    case (Cons c t)
    let ?q = "pointer_segments r"
    show ?thesis
    proof (cases "c = CHR ''/''")
      case True
      with r Cons have q: "?q = split_on (CHR ''/'') t" by (simp add: pointer_segments_def)
      then have ne: "?q \<noteq> []" by (simp add: split_on_nonempty)
      from q have j: "join ''/'' ?q = t" using join_split_on[of "CHR ''/''" t] by simp
      from r Cons have d: "drop 2 r = t" by simp
      have "starts_with (join ''/'' (?q @ q') @ ''/'') (t @ ''/'')"
        using join_append[OF ne, of q'] starts_with_append[of "t @ ''/''"] j by simp
      with d show ?thesis by (simp add: occurs_in_start)
    next
      case False
      obtain y ys where s: "split_on (CHR ''/'') t = y # ys"
        using split_on_nonempty[of "CHR ''/''" t] by (cases "split_on (CHR ''/'') t") auto
      with r Cons False have q: "?q = split_on (CHR ''/'') (c # t)"
        by (simp add: pointer_segments_def)
      have ne: "?q \<noteq> []" unfolding q by (rule split_on_nonempty)
      from q have j: "join ''/'' ?q = c # t" using join_split_on[of "CHR ''/''" "c # t"] by simp
      from r Cons have d: "drop 2 r = t" by simp
      have "join ''/'' (?q @ q') @ ''/'' =
              c # ((t @ ''/'') @ (if q' = [] then [] else join ''/'' q' @ ''/''))"
        using join_append[OF ne, of q'] j by simp
      moreover have "occurs_in (t @ ''/'') (c # ((t @ ''/'') @ z))" for z
        using starts_with_append[of "t @ ''/''" z] by (simp add: occurs_in_start)
      ultimately show ?thesis using d by simp
    qed
  qed
qed

text \<open>
  Claim C6, amended. The static pass rejects with a circular-reference error, before
  anything enters the store and before any call of the loader, every document whose copy
  holds a local reference node that refers to itself or to one of its ancestors: a node
  at the place \<open>q @ q'\<close> whose pointer, split into its segments, is \<open>q\<close>. It is the
  pointer path that is a prefix of the path of the node, not the path of the node that
  is a prefix of the pointer path. The state and the world that come back are the initial
  ones.
\<close>

theorem ancestor_target_rejected:
  assumes "get (clone doc) (q @ q') = Some node" "getRefValue node = Some r"
    and "starts_with r ''#''" "pointer_segments r = q"
  shows "\<exists>e. is_CircularReference e \<and>
             deref n E c doc options =
               Some (Inl e, initial_state E doc options,
                     (initial_world E c options)\<lparr>cache := (\<lambda>k. None)\<rparr>)"
proof -
  from locals_member[OF assms(1,2,3), of "[]" E]
  have m: "(join ''/'' (q @ q'), r) \<in> set (locals E [] (clone doc))" by simp
  from pointer_prefix_occurs[OF assms(3), of q'] assms(4)
  have "occurs_in (drop 2 r @ ''/'') (join ''/'' (q @ q') @ ''/'')" by simp
  from checkLocalCircular_hit[OF m this] deref_static_error show ?thesis by blast
qed

theorem ancestor_target_rejected_witness:
  "get (clone outward_doc) ([''a''] @ [''b'']) = Some (ref ''#/a'')
   \<and> getRefValue (ref ''#/a'') = Some ''#/a''
   \<and> starts_with ''#/a'' ''#'' \<and> pointer_segments ''#/a'' = [''a'']
   \<and> (\<exists>e. is_CircularReference e \<and>
             deref 0 (host no_files) empty_cache outward_doc default_options =
               Some (Inl e, initial_state (host no_files) outward_doc default_options,
                     (initial_world (host no_files) empty_cache default_options)
                       \<lparr>cache := (\<lambda>k. None)\<rparr>))"
proof -
  have 1: "get (clone outward_doc) ([''a''] @ [''b'']) = Some (ref ''#/a'')"
    by (simp add: outward_doc_def ref_def inherited_names_def)
  have 2: "getRefValue (ref ''#/a'') = Some ''#/a''" by (simp add: ref_def)
  have 3: "starts_with ''#/a'' ''#''" by simp
  have 4: "pointer_segments ''#/a'' = [''a'']" by (simp add: pointer_segments_def)
  from ancestor_target_rejected[OF 1 2 3 4] 1 2 3 4 show ?thesis by blast
qed

section \<open>Documents in the store\<close>

lemma read_nat_snoc: "read_nat (s @ [c]) = 10 * read_nat s + (of_char c - 48)"
  by (simp add: read_nat_def)

lemma read_nat_digit: "d < 10 \<Longrightarrow> read_nat [digit d] = d"
  by (simp add: read_nat_def digit_def)

lemma read_show_nat: "read_nat (show_nat n) = n"
proof (induction n rule: show_nat.induct)
  case (1 n)
  show ?case
  proof (cases "n < 10")
    case True
    then show ?thesis by (subst show_nat.simps) (simp add: read_nat_digit)
  next
    case False
    with 1 have "read_nat (show_nat (n div 10)) = n div 10" by simp
    moreover have "(of_char (digit (n mod 10)) :: nat) - 48 = n mod 10"
      by (simp add: digit_def)
    ultimately show ?thesis using False
      by (subst show_nat.simps) (simp add: read_nat_snoc)
  qed
qed

lemma show_nat_inj: "show_nat m = show_nat n \<Longrightarrow> m = n"
  by (metis read_show_nat)

lemma distinct_index_keys: "distinct (index_keys xs)"
  by (simp add: index_keys_def distinct_map inj_on_def show_nat_inj)

lemma length_index_keys [simp]: "length (index_keys xs) = length xs"
  by (simp add: index_keys_def)

lemma map_snd_entries_JArr [simp]: "map snd (entries (JArr xs)) = xs"
  by simp

lemma map_fst_entries_JArr [simp]: "map fst (entries (JArr xs)) = index_keys xs"
  by simp


text \<open>The children of a node.\<close>

lemma entries_child:
  assumes "map_of (entries j) k = Some c"
  shows "(k, c) \<in> set (entries j)"
  using assms by (rule map_of_SomeD)

lemma depth_list_le: "c \<in> set xs \<Longrightarrow> depth c \<le> depth_list xs"
  by (induction xs) auto

lemma depth_entries_le: "(k, c) \<in> set kvs \<Longrightarrow> depth c \<le> depth_entries kvs"
  by (induction kvs) auto

lemma depth_child: "(k, c) \<in> set (entries j) \<Longrightarrow> depth c < depth j"
proof (cases j)
  case (JArr xs)
  assume "(k, c) \<in> set (entries j)"
  with JArr have "c \<in> set xs" by (auto dest: set_zip_rightD)
  with JArr show ?thesis using depth_list_le by fastforce
next
  case (JObj kvs)
  assume "(k, c) \<in> set (entries j)"
  with JObj show ?thesis using depth_entries_le by fastforce
qed auto

lemma ref_strings_list_nil: "ref_strings_list xs = [] \<Longrightarrow> c \<in> set xs \<Longrightarrow> ref_strings c = []"
  by (induction xs) auto

lemma ref_strings_entries_nil:
  "ref_strings_entries kvs = [] \<Longrightarrow> (k, c) \<in> set kvs \<Longrightarrow> ref_strings c = []"
  by (induction kvs) auto

lemma ref_free_child:
  assumes "ref_strings j = []" "(k, c) \<in> set (entries j)"
  shows "ref_strings c = []"
proof (cases j)
  case (JArr xs)
  with assms(2) have "c \<in> set xs" by (auto dest: set_zip_rightD)
  with JArr assms(1) show ?thesis using ref_strings_list_nil by simp
next
  case (JObj kvs)
  with assms show ?thesis using ref_strings_entries_nil by auto
qed (use assms in auto)

lemma ref_free_no_ref: "ref_strings j = [] \<Longrightarrow> getRefValue j = None"
  by (cases j) (auto split: option.splits)

lemma wf_list_child: "wf_list xs \<Longrightarrow> c \<in> set xs \<Longrightarrow> wf_json c"
  by (induction xs) auto

lemma wf_entries_child: "wf_entries kvs \<Longrightarrow> (k, c) \<in> set kvs \<Longrightarrow> wf_json c"
  by (induction kvs) auto

lemma wf_child:
  assumes "wf_json j" "(k, c) \<in> set (entries j)"
  shows "wf_json c"
proof (cases j)
  case (JArr xs)
  with assms(2) have "c \<in> set xs" by (auto dest: set_zip_rightD)
  with JArr assms(1) show ?thesis using wf_list_child by simp
next
  case (JObj kvs)
  with assms show ?thesis using wf_entries_child by auto
qed (use assms in auto)

lemma wf_distinct_keys: "wf_json j \<Longrightarrow> distinct (map fst (entries j))"
  by (cases j) (simp_all add: distinct_index_keys)

lemma wf_entry_lookup:
  "wf_json j \<Longrightarrow> (k, c) \<in> set (entries j) \<Longrightarrow> map_of (entries j) k = Some c"
  using wf_distinct_keys by (simp add: map_of_eq_Some_iff)

lemma get_append:
  "get doc (p @ q) = (case get doc p of None \<Rightarrow> None | Some j \<Rightarrow> get j q)"
  by (induction p arbitrary: doc) (auto split: option.splits)

lemma get_snoc:
  "get doc p = Some j \<Longrightarrow> map_of (entries j) k = Some c \<Longrightarrow> get doc (p @ [k]) = Some c"
  by (simp add: get_append)

lemma wf_get: "wf_json doc \<Longrightarrow> get doc p = Some j \<Longrightarrow> wf_json j"
proof (induction p arbitrary: doc)
  case Nil
  then show ?case by simp
next
  case (Cons k p)
  from Cons.prems(2) obtain c where c: "map_of (entries doc) k = Some c" "get c p = Some j"
    by (auto split: option.splits)
  from wf_child[OF Cons.prems(1) entries_child[OF c(1)]] c(2) show ?case by (rule Cons.IH)
qed

text \<open>The store after a document has entered it.\<close>

lemma alloc_at: "get doc p = Some j \<Longrightarrow> alloc d doc h (d, p) = obj_of d p j"
  by (simp add: alloc_def)

lemma alloc_other: "d' \<noteq> d \<Longrightarrow> alloc d doc h (d', p) = h (d', p)"
  by (simp add: alloc_def)

lemma map_of_map_entries:
  "map_of (map (\<lambda>kv. (fst kv, f (fst kv) (snd kv))) es) k = map_option (f k) (map_of es k)"
  by (induction es) auto

lemma get_prop_alloc:
  assumes "get doc p = Some j"
  shows "get_prop (alloc d doc h) (d, p) k =
           map_option (val_of d (p @ [k])) (map_of (entries j) k)"
proof (cases "is_node j")
  case True
  with assms show ?thesis
    using map_of_map_entries[of "\<lambda>k. val_of d (p @ [k])" "entries j" k]
    by (simp add: get_prop_def alloc_at obj_of_def)
next
  case False
  then have "entries j = []" by (cases j) auto
  with False assms show ?thesis by (simp add: get_prop_def alloc_at obj_of_def)
qed

lemma own_keys_alloc:
  assumes "get doc p = Some j"
  shows "own_keys (alloc d doc h) (d, p) = map fst (entries j)"
proof (cases "is_node j")
  case True
  with assms show ?thesis by (simp add: own_keys_def alloc_at obj_of_def comp_def)
next
  case False
  then have "entries j = []" by (cases j) auto
  with False assms show ?thesis by (simp add: own_keys_def alloc_at obj_of_def)
qed

lemma val_of_VStr: "val_of d p c = VStr s \<longleftrightarrow> c = JStr s"
  by (cases c) auto

lemma node_ref_alloc:
  assumes "get doc p = Some j"
  shows "node_ref (alloc d doc h) (val_of d p j) = getRefValue j"
proof (cases j)
  case (JObj kvs)
  have "map_of (map (\<lambda>kv. (fst kv, val_of d (p @ [fst kv]) (snd kv))) kvs) ''$ref'' =
          map_option (val_of d (p @ [''$ref''])) (map_of kvs ''$ref'')"
    using map_of_map_entries[of "\<lambda>k. val_of d (p @ [k])" kvs "''$ref''"] by simp
  with JObj assms show ?thesis
    by (cases "map_of kvs ''$ref''")
       (auto simp: node_ref_def alloc_at obj_of_def val_of_VStr split: val.splits json.splits)
next
  case (JArr xs)
  with assms show ?thesis by (simp add: node_ref_def alloc_at obj_of_def)
qed (simp_all add: node_ref_def)

lemma val_of_node: "is_node j \<Longrightarrow> val_of d p j = VObj (d, p)"
  by (cases j) auto

lemma val_of_scalar: "\<not> is_node j \<Longrightarrow> val_of d p j \<noteq> VObj a"
  by (cases j) auto

lemma entries_scalar: "\<not> is_node j \<Longrightarrow> entries j = []"
  by (cases j) auto

lemma lookup_path_scalar: "\<not> is_node j \<Longrightarrow> lookup_path h (val_of d p j) (k # ks) = None"
  by (cases j) auto

lemma lookup_path_alloc:
  "get doc p = Some j \<Longrightarrow>
   lookup_path (alloc d doc h) (val_of d p j) ks = map_option (val_of d (p @ ks)) (get j ks)"
proof (induction ks arbitrary: p j)
  case Nil
  then show ?case by simp
next
  case (Cons k ks)
  show ?case
  proof (cases "is_node j")
    case False
    then show ?thesis by (simp add: lookup_path_scalar entries_scalar del: lookup_path.simps(2))
  next
    case True
    show ?thesis
    proof (cases "map_of (entries j) k")
      case None
      with Cons.prems True show ?thesis
        by (simp add: val_of_node get_prop_alloc)
    next
      case (Some c)
      from Cons.prems Some have "get doc (p @ [k]) = Some c" by (rule get_snoc)
      from Cons.IH[OF this] Some Cons.prems True show ?thesis
        by (simp add: val_of_node get_prop_alloc)
    qed
  qed
qed


section \<open>Walking a document without reference nodes\<close>

lemma walk_keys_unchanged:
  assumes "\<And>k child. k \<in> set ks \<Longrightarrow> get_prop (heap w) a k = Some child \<Longrightarrow>
             \<exists>x. C (Some (a, k)) child st w = Some (x, st, w)"
  shows "walk_keys C a ks st w = Some (st, w)"
  using assms
proof (induction ks)
  case Nil
  show ?case by simp
next
  case (Cons k ks)
  have rest: "walk_keys C a ks st w = Some (st, w)"
    by (rule Cons.IH) (simp add: Cons.prems)
  show ?case
  proof (cases "get_prop (heap w) a k")
    case None
    with rest show ?thesis by simp
  next
    case (Some child)
    with Cons.prems[of k child] obtain x where "C (Some (a, k)) child st w = Some (x, st, w)"
      by auto
    with Some rest show ?thesis by simp
  qed
qed

lemma on_node_plain:
  "node_ref (heap w) node = None \<Longrightarrow> on_node W E schema slot node st w = Some ((node, True), st, w)"
  by (simp add: on_node_def)

lemma walker_ref_free:
  "heap w = alloc d doc h \<Longrightarrow> get doc p = Some j \<Longrightarrow> ref_strings j = [] \<Longrightarrow> depth j < n \<Longrightarrow>
   walker n E schema ps slot (val_of d p j) st w = Some (val_of d p j, st, w)"
proof (induction n arbitrary: p j ps slot)
  case 0
  then show ?case by simp
next
  case (Suc n)
  let ?node = "val_of d p j"
  have plain: "on_node (walker n E) E schema slot ?node st w = Some ((?node, True), st, w)"
    using Suc.prems by (simp add: on_node_plain node_ref_alloc ref_free_no_ref)
  show ?case
  proof (cases "is_node j")
    case False
    with plain show ?thesis
      by (cases j) (simp_all add: walk_step_def)
  next
    case True
    then have node: "?node = VObj (d, p)" by (rule val_of_node)
    show ?thesis
    proof (cases "?node \<in> set ps")
      case True
      with plain node show ?thesis by (simp add: walk_step_def)
    next
      case False
      have "walk_keys (walker n E schema (ps @ [?node])) (d, p) (own_keys (heap w) (d, p)) st w =
              Some (st, w)"
      proof (rule walk_keys_unchanged)
        fix k child
        assume "k \<in> set (own_keys (heap w) (d, p))"
          and "get_prop (heap w) (d, p) k = Some child"
        with Suc.prems(1,2) obtain c where c: "map_of (entries j) k = Some c"
          "child = val_of d (p @ [k]) c"
          by (auto simp: get_prop_alloc)
        have "get doc (p @ [k]) = Some c" using Suc.prems(2) c(1) by (rule get_snoc)
        moreover have "ref_strings c = []"
          using Suc.prems(3) entries_child[OF c(1)] by (rule ref_free_child)
        moreover have "depth c < n"
          using depth_child[OF entries_child[OF c(1)]] Suc.prems(4) by simp
        ultimately have "walker n E schema (ps @ [?node]) (Some ((d, p), k)) (val_of d (p @ [k]) c)
                           st w = Some (val_of d (p @ [k]) c, st, w)"
          using Suc.IH[OF Suc.prems(1)] by blast
        with c(2) show "\<exists>x. walker n E schema (ps @ [?node]) (Some ((d, p), k)) child st w =
                            Some (x, st, w)"
          by simp
      qed
      with plain node False show ?thesis by (simp add: walk_step_def)
    qed
  qed
qed

lemma locals_ref_free:
  "ref_strings j = [] \<Longrightarrow> locals E p j = []"
  and "ref_strings_list xs = [] \<Longrightarrow> locals_items E p i xs = []"
  and "ref_strings_entries kvs = [] \<Longrightarrow> locals_entries E p kvs = []"
proof (induction j and xs and kvs arbitrary: p and p i and p rule: ref_strings_ref_strings_list_ref_strings_entries.induct)
  case (1 kvs)
  then show ?case by (auto simp: locals.simps(1) split: option.splits)
next
  case (2 xs)
  then show ?case by (simp add: locals.simps(1))
qed (simp_all add: locals.simps(1))

lemma checkLocalCircular_ref_free: "ref_strings doc = [] \<Longrightarrow> checkLocalCircular E doc = None"
  by (simp add: checkLocalCircular_def locals_ref_free)

lemma readback_entries_map:
  assumes "\<And>k c. (k, c) \<in> set es \<Longrightarrow> readback n h (f k c) = Some c"
  shows "readback_entries n h (map (\<lambda>kv. (fst kv, f (fst kv) (snd kv))) es) = Some es"
  using assms by (induction es) auto

lemma readback_scalar: "\<not> is_node j \<Longrightarrow> readback n h (val_of d p j) = Some j"
  by (cases j) auto

lemma readback_alloc:
  "get doc p = Some j \<Longrightarrow> wf_json j \<Longrightarrow> depth j \<le> n \<Longrightarrow>
   readback n (alloc d doc h) (val_of d p j) = Some j"
proof (induction n arbitrary: p j)
  case 0
  then have "\<not> is_node j" by (cases j) auto
  then show ?case by (rule readback_scalar)
next
  case (Suc n)
  show ?case
  proof (cases "is_node j")
    case False
    then show ?thesis by (rule readback_scalar)
  next
    case True
    let ?h = "alloc d doc h"
    have "readback_entries n ?h
            (map (\<lambda>kv. (fst kv, val_of d (p @ [fst kv]) (snd kv))) (entries j)) = Some (entries j)"
    proof (rule readback_entries_map)
      fix k c
      assume kc: "(k, c) \<in> set (entries j)"
      with Suc.prems(2) have "map_of (entries j) k = Some c" by (rule wf_entry_lookup)
      with Suc.prems(1) have "get doc (p @ [k]) = Some c" by (rule get_snoc)
      moreover have "wf_json c" using Suc.prems(2) kc by (rule wf_child)
      moreover have "depth c \<le> n" using depth_child[OF kc] Suc.prems(3) by simp
      ultimately show "readback n ?h (val_of d (p @ [k]) c) = Some c" by (rule Suc.IH)
    qed
    with True Suc.prems(1) show ?thesis
      by (cases j) (simp_all add: alloc_at obj_of_def)
  qed
qed


section \<open>Walking a document with one unresolvable local reference\<close>

lemma on_node_local:
  assumes "node_ref (heap w) node = Some r" "classify E r = Local" "r \<noteq> ''#''"
    and "toLowerCase (current st @ '':'' @ r) \<notin> set (history st)"
  shows "on_node W E schema slot node st w =
           (case getRefPathValue (heap w) schema r of
              Some v \<Rightarrow> Some ((v, True), clear_missing r st, update_slot slot v w)
            | None \<Rightarrow>
                Some ((node, \<not> failOnMissing (opts w)),
                      note_missing r (failOnMissing (opts w)) st, update_slot slot node w))"
  using assms
  by (simp add: on_node_def getRefSchema_Local addToHistory_def push_history_def setCurrent_def
      pop_history_def Let_def split: option.splits)

lemma set_prop_same:
  assumes "get_prop h a k = Some x" "distinct (own_keys h a)"
  shows "set_prop h a k x = h"
proof -
  from assms(1) obtain ob where ob: "h a = Some ob" "map_of (snd ob) k = Some x"
    by (auto simp: get_prop_def split: option.splits)
  from assms(2) ob(1) have d: "distinct (map fst (snd ob))" by (simp add: own_keys_def)
  have "map (\<lambda>kv. if fst kv = k then (k, x) else kv) (snd ob) = snd ob"
  proof (rule map_idI)
    fix kv
    assume "kv \<in> set (snd ob)"
    with d have "map_of (snd ob) (fst kv) = Some (snd kv)" by (simp add: map_of_eq_Some_iff)
    with ob(2) show "(if fst kv = k then (k, x) else kv) = kv" by (auto simp: prod_eq_iff)
  qed
  with ob(1) show ?thesis by (simp add: set_prop_def fun_upd_idem)
qed

lemma ref_strings_list_concat: "ref_strings_list xs = concat (map ref_strings xs)"
  by (induction xs) auto

lemma ref_strings_entries_concat:
  "ref_strings_entries kvs = concat (map (\<lambda>kv. ref_strings (snd kv)) kvs)"
  by (induction kvs) auto

lemma map_snd_zip_comp:
  "length ks = length xs \<Longrightarrow> map (\<lambda>kv. f (snd kv)) (zip ks xs) = map f xs"
  by (induction ks xs rule: list_induct2) auto

lemma ref_strings_unfold:
  "ref_strings j =
     (case getRefValue j of Some r \<Rightarrow> [r] | None \<Rightarrow> []) @
     concat (map (\<lambda>kv. ref_strings (snd kv)) (entries j))"
proof (cases j)
  case (JArr xs)
  have "map (\<lambda>kv. ref_strings (snd kv)) (zip (index_keys xs) xs) = map ref_strings xs"
    by (rule map_snd_zip_comp) simp
  with JArr show ?thesis by (simp add: ref_strings_list_concat)
next
  case (JObj kvs)
  then show ?thesis by (simp add: ref_strings_entries_concat)
qed auto

lemma concat_single:
  assumes "xs @ concat yss = [r]"
  shows "(xs = [r] \<and> concat yss = []) \<or> (xs = [] \<and> concat yss = [r])"
  using assms by (cases xs) auto

lemma concat_nil_member: "concat (map f es) = [] \<Longrightarrow> e \<in> set es \<Longrightarrow> f e = []"
  by (induction es) auto

lemma walk_keys_one:
  assumes free: "\<And>k c st1. (k, c) \<in> set es \<Longrightarrow> ref_strings c = [] \<Longrightarrow>
                   get_prop (heap w) a k = Some (val_of d (p @ [k]) c) \<and>
                   C (Some (a, k)) (val_of d (p @ [k]) c) st1 w = Some (val_of d (p @ [k]) c, st1, w)"
    and one: "\<And>k c. (k, c) \<in> set es \<Longrightarrow> ref_strings c = [r] \<Longrightarrow>
                   get_prop (heap w) a k = Some (val_of d (p @ [k]) c) \<and>
                   C (Some (a, k)) (val_of d (p @ [k]) c) st w = Some (val_of d (p @ [k]) c, st', w)"
    and "concat (map (\<lambda>kv. ref_strings (snd kv)) es) = [r]"
  shows "walk_keys C a (map fst es) st w = Some (st', w)"
  using assms
proof (induction es)
  case Nil
  from Nil.prems(3) show ?case by simp
next
  case (Cons e es)
  obtain k c where e: "e = (k, c)" by (cases e)
  from Cons.prems(3) e have "ref_strings c @ concat (map (\<lambda>kv. ref_strings (snd kv)) es) = [r]"
    by simp
  then consider
      (here) "ref_strings c = [r]" "concat (map (\<lambda>kv. ref_strings (snd kv)) es) = []"
    | (later) "ref_strings c = []" "concat (map (\<lambda>kv. ref_strings (snd kv)) es) = [r]"
    using concat_single[of "ref_strings c" "map (\<lambda>kv. ref_strings (snd kv)) es" r] by argo
  then show ?case
  proof cases
    case here
    from Cons.prems(2)[of k c] e here(1)
    have step: "get_prop (heap w) a k = Some (val_of d (p @ [k]) c)"
      "C (Some (a, k)) (val_of d (p @ [k]) c) st w = Some (val_of d (p @ [k]) c, st', w)"
      by simp_all
    have "walk_keys C a (map fst es) st' w = Some (st', w)"
    proof (rule walk_keys_unchanged)
      fix k' child
      assume "k' \<in> set (map fst es)" and g: "get_prop (heap w) a k' = Some child"
      then obtain c' where m: "(k', c') \<in> set es" by auto
      with here(2) have "ref_strings c' = []"
        using concat_nil_member[of "\<lambda>kv. ref_strings (snd kv)" es "(k', c')"] by simp
      with Cons.prems(1)[of k' c' st'] m g
      show "\<exists>x. C (Some (a, k')) child st' w = Some (x, st', w)" by auto
    qed
    with step e show ?thesis by simp
  next
    case later
    from Cons.prems(1)[of k c st] e later(1)
    have step: "get_prop (heap w) a k = Some (val_of d (p @ [k]) c)"
      "C (Some (a, k)) (val_of d (p @ [k]) c) st w = Some (val_of d (p @ [k]) c, st, w)"
      by simp_all
    have "walk_keys C a (map fst es) st w = Some (st', w)"
    proof (rule Cons.IH)
      fix k' c' st1
      assume "(k', c') \<in> set es" "ref_strings c' = []"
      then show "get_prop (heap w) a k' = Some (val_of d (p @ [k']) c') \<and>
                 C (Some (a, k')) (val_of d (p @ [k']) c') st1 w =
                   Some (val_of d (p @ [k']) c', st1, w)"
        using Cons.prems(1)[of k' c' st1] by simp
    next
      fix k' c'
      assume "(k', c') \<in> set es" "ref_strings c' = [r]"
      then show "get_prop (heap w) a k' = Some (val_of d (p @ [k']) c') \<and>
                 C (Some (a, k')) (val_of d (p @ [k']) c') st w =
                   Some (val_of d (p @ [k']) c', st', w)"
        using Cons.prems(2)[of k' c'] by simp
    next
      show "concat (map (\<lambda>kv. ref_strings (snd kv)) es) = [r]" by (rule later(2))
    qed
    with step e show ?thesis by simp
  qed
qed


lemma pointer_segments_root: "pointer_segments ''#'' = []"
  by (simp add: pointer_segments_def)

lemma walker_one_ref:
  assumes "heap w = alloc d doc h" "wf_json doc" "classify E r = Local" "r \<noteq> ''#''"
    and "get doc (pointer_segments r) = None" "history st = []"
  shows "get doc p = Some j \<Longrightarrow> ref_strings j = [r] \<Longrightarrow> depth j < n \<Longrightarrow>
         update_slot slot (val_of d p j) w = w \<Longrightarrow>
         (\<forall>x\<in>set ps. \<exists>q. x = VObj (d, q) \<and> length q < length p) \<Longrightarrow>
         walker n E (val_of d [] doc) ps slot (val_of d p j) st w =
           Some (val_of d p j, note_missing r (failOnMissing (opts w)) st, w)"
proof (induction n arbitrary: p j ps slot)
  case 0
  then show ?case by simp
next
  case (Suc n)
  let ?node = "val_of d p j"
  let ?schema = "val_of d [] doc"
  let ?st' = "note_missing r (failOnMissing (opts w)) st"
  have wfj: "wf_json j" using assms(2) Suc.prems(1) by (rule wf_get)
  have node: "is_node j" using Suc.prems(2) by (cases j) auto
  then have nodeval: "?node = VObj (d, p)" by (rule val_of_node)
  have notin: "?node \<notin> set ps" using Suc.prems(5) nodeval by auto
  have keys: "own_keys (heap w) (d, p) = map fst (entries j)"
    using assms(1) Suc.prems(1) by (simp add: own_keys_alloc)
  have child_free: "get_prop (heap w) (d, p) k = Some (val_of d (p @ [k]) c') \<and>
      walker n E ?schema (ps @ [?node]) (Some ((d, p), k)) (val_of d (p @ [k]) c') st1 w =
        Some (val_of d (p @ [k]) c', st1, w)"
    if "(k, c') \<in> set (entries j)" "ref_strings c' = []" for k c' st1
  proof -
    have m: "map_of (entries j) k = Some c'" using wfj that(1) by (rule wf_entry_lookup)
    have g: "get doc (p @ [k]) = Some c'" using Suc.prems(1) m by (rule get_snoc)
    have "depth c' < n" using depth_child[OF that(1)] Suc.prems(3) by simp
    with walker_ref_free[OF assms(1) g that(2)] m Suc.prems(1) assms(1) show ?thesis
      by (simp add: get_prop_alloc)
  qed
  show ?case
  proof (cases "getRefValue j")
    case (Some r')
    from Suc.prems(2) Some have r': "r' = r"
      and rest: "concat (map (\<lambda>kv. ref_strings (snd kv)) (entries j)) = []"
      by (simp_all add: ref_strings_unfold[of j])
    have nr: "node_ref (heap w) ?node = Some r"
      using assms(1) Suc.prems(1) Some r' by (simp add: node_ref_alloc)
    have h: "toLowerCase (current st @ '':'' @ r) \<notin> set (history st)"
      using assms(6) by simp
    have miss: "getRefPathValue (heap w) ?schema r = None"
      using lookup_path_alloc[of doc "[]" doc d h "pointer_segments r"] assms(1,5)
      by (simp add: getRefPathValue_def)
    have on: "on_node (walker n E) E ?schema slot ?node st w =
                Some ((?node, \<not> failOnMissing (opts w)), ?st', w)"
      using on_node_local[OF nr assms(3,4) h, of "walker n E" ?schema slot] miss Suc.prems(4)
      by simp
    show ?thesis
    proof (cases "failOnMissing (opts w)")
      case True
      with on show ?thesis by (simp add: walk_step_def)
    next
      case False
      have "walk_keys (walker n E ?schema (ps @ [?node])) (d, p) (own_keys (heap w) (d, p)) ?st' w =
              Some (?st', w)"
      proof (rule walk_keys_unchanged)
        fix k child
        assume "k \<in> set (own_keys (heap w) (d, p))"
          and g: "get_prop (heap w) (d, p) k = Some child"
        with keys obtain c' where m: "(k, c') \<in> set (entries j)" by auto
        with rest have "ref_strings c' = []"
          using concat_nil_member[of "\<lambda>kv. ref_strings (snd kv)" "entries j" "(k, c')"] by simp
        from child_free[OF m this, of ?st'] g
        show "\<exists>x. walker n E ?schema (ps @ [?node]) (Some ((d, p), k)) child ?st' w =
                   Some (x, ?st', w)"
          by auto
      qed
      with on False nodeval notin show ?thesis by (simp add: walk_step_def)
    qed
  next
    case None
    with Suc.prems(2) have rest: "concat (map (\<lambda>kv. ref_strings (snd kv)) (entries j)) = [r]"
      by (simp add: ref_strings_unfold[of j])
    have on: "on_node (walker n E) E ?schema slot ?node st w = Some ((?node, True), st, w)"
      using assms(1) Suc.prems(1) None by (simp add: on_node_plain node_ref_alloc)
    have "walk_keys (walker n E ?schema (ps @ [?node])) (d, p) (map fst (entries j)) st w =
            Some (?st', w)"
    proof (rule walk_keys_one[where d=d and p=p and r=r])
      fix k c' st1
      assume "(k, c') \<in> set (entries j)" "ref_strings c' = []"
      then show "get_prop (heap w) (d, p) k = Some (val_of d (p @ [k]) c') \<and>
           walker n E ?schema (ps @ [?node]) (Some ((d, p), k)) (val_of d (p @ [k]) c') st1 w =
             Some (val_of d (p @ [k]) c', st1, w)"
        by (rule child_free)
    next
      fix k c'
      assume kc: "(k, c') \<in> set (entries j)" and one: "ref_strings c' = [r]"
      have m: "map_of (entries j) k = Some c'" using wfj kc by (rule wf_entry_lookup)
      have g: "get doc (p @ [k]) = Some c'" using Suc.prems(1) m by (rule get_snoc)
      have gp: "get_prop (heap w) (d, p) k = Some (val_of d (p @ [k]) c')"
        using m Suc.prems(1) assms(1) by (simp add: get_prop_alloc)
      have dk: "distinct (own_keys (heap w) (d, p))"
        using keys wf_distinct_keys[OF wfj] by simp
      have slot: "update_slot (Some ((d, p), k)) (val_of d (p @ [k]) c') w = w"
        using set_prop_same[OF gp dk] by simp
      have dep: "depth c' < n" using depth_child[OF kc] Suc.prems(3) by simp
      have ps: "\<forall>x\<in>set (ps @ [?node]). \<exists>q. x = VObj (d, q) \<and> length q < length (p @ [k])"
        using Suc.prems(5) nodeval by auto
      from Suc.IH[OF g one dep slot ps] gp
      show "get_prop (heap w) (d, p) k = Some (val_of d (p @ [k]) c') \<and>
           walker n E ?schema (ps @ [?node]) (Some ((d, p), k)) (val_of d (p @ [k]) c') st w =
             Some (val_of d (p @ [k]) c', ?st', w)"
        by simp
    next
      show "concat (map (\<lambda>kv. ref_strings (snd kv)) (entries j)) = [r]" by (rule rest)
    qed
    with on nodeval notin keys show ?thesis by (simp add: walk_step_def)
  qed
qed


section \<open>The call on such documents\<close>

lemma derefSchema_walk:
  assumes "checkLocalCircular E doc = None" "\<not> circular st" "error st = None"
  shows "derefSchema n E doc st w =
           walker n E (val_of (nextdoc w) [] doc) [] None (val_of (nextdoc w) [] doc) st
             (enter_doc doc w)"
  using assms by (simp add: derefSchema_def derefSchema_with_def)

lemma val_of_not_VErr: "val_of d p j \<noteq> VErr e"
  by (cases j) auto

lemma no_ref_keys_ref_free:
  "no_ref_keys j \<Longrightarrow> ref_strings j = []"
  and "no_ref_keys_list xs \<Longrightarrow> ref_strings_list xs = []"
  and "no_ref_keys_entries kvs \<Longrightarrow> ref_strings_entries kvs = []"
  by (induction j and xs and kvs rule: no_ref_keys_no_ref_keys_list_no_ref_keys_entries.induct)
     simp_all

lemma ref_free_document_unchanged:
  assumes "ref_strings doc = []" "wf_json doc" "depth doc < n" "clone doc = doc"
  shows "deref n E c doc options =
           Some (Inr (val_of 0 [] doc), initial_state E doc options,
                 enter_doc doc ((initial_world E c options)\<lparr>cache := (\<lambda>k. None)\<rparr>))"
    and "readback n (heap (enter_doc doc ((initial_world E c options)\<lparr>cache := (\<lambda>k. None)\<rparr>)))
           (val_of 0 [] doc) = Some doc"
proof -
  let ?st = "initial_state E doc options"
  let ?iw = "(initial_world E c options)\<lparr>cache := (\<lambda>k. None)\<rparr>"
  let ?w = "enter_doc doc ?iw"
  have hp: "heap ?w = alloc 0 doc (heap ?iw)" by (simp add: enter_doc_def)
  have "derefSchema n E doc ?st ?iw = walker n E (val_of 0 [] doc) [] None (val_of 0 [] doc) ?st ?w"
    using derefSchema_walk[where st="?st" and n=n and w="?iw" and E=E and doc=doc]
      checkLocalCircular_ref_free[OF assms(1), of E]
    by simp
  also have "\<dots> = Some (val_of 0 [] doc, ?st, ?w)"
    using walker_ref_free[OF hp _ assms(1,3), where p="[]"] by simp
  finally have "derefSchema n E doc ?st ?iw = Some (val_of 0 [] doc, ?st, ?w)" .
  with assms(4) have "derefSchema n E (clone doc) ?st ?iw = Some (val_of 0 [] doc, ?st, ?w)"
    by simp
  then show "deref n E c doc options = Some (Inr (val_of 0 [] doc), ?st, ?w)"
    by (cases doc) (simp_all add: deref_def)
  have "readback n (alloc 0 doc H) (val_of 0 [] doc) = Some doc" for H
    by (rule readback_alloc) (use assms(2,3) in simp_all)
  then show "readback n (heap ?w) (val_of 0 [] doc) = Some doc"
    by (simp add: enter_doc_def)
qed

text \<open>
  Claim C9, at the document \<open>{__proto__: {x: 1}, a: 1}\<close>, as \<open>JSON.parse\<close> gives it.
  No object in it has a key \<open>$ref\<close>. The copy that \<open>clone\<close> makes has no key
  \<open>__proto__\<close>, the walk changes nothing in it, and the call returns \<open>{a: 1}\<close>, which
  is not the document it was given. The same document with the key spelt \<open>proto\<close>
  comes back as it was given.
\<close>

theorem proto_key_lost:
  "no_ref_keys proto_doc \<and> wf_json proto_doc \<and> clone proto_doc = JObj [(''a'', JNum 1)]
   \<and> result_doc 3 (deref 3 (host no_files) empty_cache proto_doc default_options) =
       Some (Inr (JObj [(''a'', JNum 1)]))
   \<and> JObj [(''a'', JNum 1)] \<noteq> proto_doc
   \<and> result_doc 3 (deref 3 (host no_files) empty_cache
        (JObj [(''proto'', JObj [(''x'', JNum 1)]), (''a'', JNum 1)]) default_options) =
       Some (Inr (JObj [(''proto'', JObj [(''x'', JNum 1)]), (''a'', JNum 1)]))"
  by (simp add: engine_defs proto_doc_def eval_nat_numeral)

text \<open>
  For every document of the JSON data model (the keys of each object distinct) in which
  no object has a key \<open>$ref\<close> and which its copy equals (no key in it names a property
  of \<open>Object.prototype\<close>), the call, given fuel beyond the depth of the document,
  returns a document equal to the one it was given, reports nothing missing and loads
  nothing, whatever the host, the options and the cache it finds. The same holds, by
  \<open>ref_free_document_unchanged\<close>, for every such document without a reference node,
  that is without an object whose \<open>$ref\<close> is a string.
\<close>

theorem plain_document_unchanged:
  assumes "no_ref_keys doc" "wf_json doc" "depth doc < n" "clone doc = doc"
  shows "result_doc n (deref n E c doc options) = Some (Inr doc)
       \<and> result_missing (deref n E c doc options) = []
       \<and> result_loads (deref n E c doc options) = []"
  using ref_free_document_unchanged[OF no_ref_keys_ref_free(1)[OF assms(1)] assms(2,3,4), of E c options]
  by (simp add: result_doc_def result_missing_def result_loads_def enter_doc_def)

theorem plain_document_unchanged_example:
  "no_ref_keys plain_doc \<and> wf_json plain_doc \<and> depth plain_doc < 3 \<and> clone plain_doc = plain_doc
   \<and> result_doc 3 (deref 3 (host no_files) (cache warm_world) plain_doc default_options) = Some (Inr plain_doc)
   \<and> result_missing (deref 3 (host no_files) (cache warm_world) plain_doc default_options) = []
   \<and> result_loads (deref 3 (host no_files) (cache warm_world) plain_doc default_options) = []"
proof -
  have 1: "no_ref_keys plain_doc" by (simp add: plain_doc_def)
  have 2: "wf_json plain_doc" by (simp add: plain_doc_def)
  have 3: "depth plain_doc < 3" by (simp add: plain_doc_def)
  have 4: "clone plain_doc = plain_doc" by (simp add: plain_doc_def inherited_names_def)
  from plain_document_unchanged[OF 1 2 3 4] 1 2 3 4 show ?thesis by blast
qed

lemma one_missing_ref:
  assumes "wf_json doc" "ref_strings doc = [r]" "starts_with r ''#''"
    and "get doc (pointer_segments r) = None" "checkLocalCircular E doc = None" "depth doc < n"
    and "clone doc = doc"
  shows "deref n E c doc options =
           Some (if failOnMissing options then Inl (MissingRef r) else Inr (val_of 0 [] doc),
                 note_missing r (failOnMissing options) (initial_state E doc options),
                 enter_doc doc ((initial_world E c options)\<lparr>cache := (\<lambda>k. None)\<rparr>))"
proof -
  let ?st = "initial_state E doc options"
  let ?iw = "(initial_world E c options)\<lparr>cache := (\<lambda>k. None)\<rparr>"
  let ?w = "enter_doc doc ?iw"
  have hp: "heap ?w = alloc 0 doc (heap ?iw)" by (simp add: enter_doc_def)
  have loc: "classify E r = Local" using assms(3) by (simp add: classify_def)
  have nr: "r \<noteq> ''#''" using assms(4) by (auto simp: pointer_segments_root)
  have fo: "failOnMissing (opts ?w) = failOnMissing options"
    by (simp add: enter_doc_def defaults_def split: option.splits)
  have "derefSchema n E doc ?st ?iw = walker n E (val_of 0 [] doc) [] None (val_of 0 [] doc) ?st ?w"
    using derefSchema_walk[where st="?st" and n=n and w="?iw" and E=E and doc=doc] assms(5)
    by simp
  also have "\<dots> = Some (val_of 0 [] doc, note_missing r (failOnMissing options) ?st, ?w)"
    using walker_one_ref[OF hp assms(1) loc nr assms(4), where st="?st" and p="[]" and j=doc
        and n=n and slot=None and ps="[]"] assms(2,6) fo
    by simp
  finally have "derefSchema n E doc ?st ?iw =
      Some (val_of 0 [] doc, note_missing r (failOnMissing options) ?st, ?w)" .
  with assms(7) have "derefSchema n E (clone doc) ?st ?iw =
      Some (val_of 0 [] doc, note_missing r (failOnMissing options) ?st, ?w)"
    by simp
  then show ?thesis
    by (cases doc) (simp_all add: deref_def note_missing_def)
qed

text \<open>
  Claim C3, at the document \<open>{xa: {$ref: #/a}}\<close>. Its only reference is local and finds
  nothing, and nothing in it is circular; but the destination \<open>a/\<close> occurs in the path
  \<open>xa/\<close>, the test \<open>from.indexOf(dest) >= 0\<close> of line 191 succeeds, and the call
  returns a circular-reference error with default options. The document
  \<open>{xb: {$ref: #/a}}\<close>, which differs in one letter of a key, comes back as it was
  given, with \<open>#/a\<close> reported missing.
\<close>

theorem static_pass_rejects_missing_reference:
  "wf_json xa_doc \<and> ref_strings xa_doc = [''#/a''] \<and> get xa_doc (pointer_segments ''#/a'') = None
   \<and> result_doc 2 (deref 2 (host no_files) empty_cache xa_doc default_options) =
       Some (Inl (CircularFromTo ''xa'' ''#/a''))
   \<and> is_CircularReference (CircularFromTo ''xa'' ''#/a'')
   \<and> result_doc 3 (deref 3 (host no_files) empty_cache (JObj [(''xb'', ref ''#/a'')]) default_options) =
       Some (Inr (JObj [(''xb'', ref ''#/a'')]))
   \<and> result_missing (deref 3 (host no_files) empty_cache (JObj [(''xb'', ref ''#/a'')]) default_options) =
       [''#/a'']"
  by (simp add: engine_defs example_defs pointer_segments_def eval_nat_numeral)

text \<open>
  Where the static pass accepts the document, the call does what is expected of it. For
  every document of the JSON data model which its copy equals, that the static pass
  accepts and whose only reference node is local with a pointer that finds nothing in the
  document: with \<open>failOnMissing\<close> unset the call returns the document as it was given,
  the reference node in its place; with \<open>failOnMissing\<close> set it returns the error
  \<open>Missing $ref\<close>; either way the reference string is the one entry of \<open>state.missing\<close>
  at the end of the call, and the loader was not called. (\<open>state\<close> is local to \<open>deref\<close>:
  what the caller receives is the document or the error.)
\<close>

theorem missing_local_reference:
  assumes "wf_json doc" "ref_strings doc = [r]" "starts_with r ''#''"
    and "get doc (pointer_segments r) = None" "checkLocalCircular E doc = None" "depth doc < n"
    and "clone doc = doc"
  shows "result_doc n (deref n E c doc options) =
           Some (if failOnMissing options then Inl (MissingRef r) else Inr doc)
       \<and> result_missing (deref n E c doc options) = [r]
       \<and> result_loads (deref n E c doc options) = []"
proof -
  have "readback n (alloc 0 doc H) (val_of 0 [] doc) = Some doc" for H
    by (rule readback_alloc) (use assms(1,6) in simp_all)
  then have "readback n (heap (enter_doc doc ((initial_world E c options)\<lparr>cache := (\<lambda>k. None)\<rparr>)))
           (val_of 0 [] doc) = Some doc"
    by (simp add: enter_doc_def)
  with one_missing_ref[OF assms, of c options] show ?thesis
    by (simp add: result_doc_def result_missing_def result_loads_def note_missing_def enter_doc_def)
qed

theorem missing_local_reference_example:
  "wf_json missing_doc \<and> ref_strings missing_doc = [''#/missing/path'']
   \<and> starts_with ''#/missing/path'' ''#''
   \<and> get missing_doc (pointer_segments ''#/missing/path'') = None
   \<and> checkLocalCircular (host no_files) missing_doc = None \<and> depth missing_doc < 2
   \<and> clone missing_doc = missing_doc
   \<and> result_doc 2 (deref 2 (host no_files) empty_cache missing_doc default_options) =
       Some (Inr missing_doc)
   \<and> result_missing (deref 2 (host no_files) empty_cache missing_doc default_options) =
       [''#/missing/path'']
   \<and> result_doc 2 (deref 2 (host no_files) empty_cache missing_doc strict_options) =
       Some (Inl (MissingRef ''#/missing/path''))
   \<and> is_MissingReference (MissingRef ''#/missing/path'')"
proof -
  have 1: "wf_json missing_doc" by (simp add: missing_doc_def ref_def)
  have 2: "ref_strings missing_doc = [''#/missing/path'']" by (simp add: missing_doc_def ref_def)
  have 3: "starts_with ''#/missing/path'' ''#''" by simp
  have 4: "get missing_doc (pointer_segments ''#/missing/path'') = None"
    by (simp add: missing_doc_def ref_def pointer_segments_def)
  have 5: "checkLocalCircular (host no_files) missing_doc = None"
    by (simp add: engine_defs missing_doc_def)
  have 6: "depth missing_doc < 2" by (simp add: missing_doc_def ref_def)
  have 7: "clone missing_doc = missing_doc"
    by (simp add: missing_doc_def ref_def inherited_names_def)
  from missing_local_reference[OF 1 2 3 4 5 6 7, of empty_cache default_options]
    missing_local_reference[OF 1 2 3 4 5 6 7, of empty_cache strict_options] 1 2 3 4 5 6 7
  show ?thesis by (simp add: default_options_def strict_options_def)
qed

section \<open>Documents whose references all resolve\<close>

lemma subnodes_entries_mono:
  "(k, c) \<in> set kvs \<Longrightarrow> set (subnodes (p @ [k]) c) \<subseteq> set (subnodes_entries p kvs)"
  by (induction kvs) auto

lemma subnodes_items_mono:
  "i < length xs \<Longrightarrow>
   set (subnodes (p @ [show_nat (i0 + i)]) (xs ! i)) \<subseteq> set (subnodes_items p i0 xs)"
proof (induction xs arbitrary: i i0)
  case Nil
  then show ?case by simp
next
  case (Cons x xs)
  show ?case
  proof (cases i)
    case 0
    then show ?thesis by auto
  next
    case (Suc j)
    with Cons.prems have "j < length xs" by simp
    from Cons.IH[OF this, of "Suc i0"] Suc show ?thesis by auto
  qed
qed

lemma subnodes_child:
  assumes "map_of (entries j) k = Some c"
  shows "set (subnodes (p @ [k]) c) \<subseteq> set (subnodes p j)"
proof (cases j)
  case (JObj kvs)
  with assms have "(k, c) \<in> set kvs" by (auto dest: map_of_SomeD)
  from subnodes_entries_mono[OF this] JObj show ?thesis by (auto simp: subnodes.simps(1))
next
  case (JArr xs)
  with assms obtain i where i: "i < length xs" "k = show_nat i" "c = xs ! i"
    using entries_JArr_D by blast
  from subnodes_items_mono[OF i(1), of p 0] i JArr show ?thesis by (auto simp: subnodes.simps(1))
qed (use assms in simp_all)

lemma subnodes_member:
  "get j q = Some node \<Longrightarrow> (p @ q, node) \<in> set (subnodes p j)"
proof (induction q arbitrary: p j)
  case Nil
  then show ?case by (simp add: subnodes.simps(1))
next
  case (Cons k q)
  from Cons.prems(1) obtain c where c: "map_of (entries j) k = Some c" "get c q = Some node"
    by (auto split: option.splits)
  from Cons.IH[OF c(2), of "p @ [k]"] subnodes_child[OF c(1), of p]
  show ?case by auto
qed

lemma all_resolveD:
  assumes "all_resolve doc" "get doc p = Some j" "getRefValue j = Some r"
  shows "starts_with r ''#''" "r \<noteq> ''#''" "clean_target doc (pointer_segments r)"
    "p = [] \<or> last p \<noteq> ''$ref''"
proof -
  from subnodes_member[OF assms(2), of "[]"] have "(p, j) \<in> set (subnodes [] doc)" by simp
  with assms(1) have "resolves doc (p, j)" by (simp add: all_resolve_def list_all_iff)
  with assms(3) show "starts_with r ''#''" "r \<noteq> ''#''" "clean_target doc (pointer_segments r)"
    "p = [] \<or> last p \<noteq> ''$ref''"
    by (simp_all add: resolves_def)
qed

lemma clean_targetD:
  assumes "clean_target doc q" "i < length q"
  shows "\<exists>t. get doc (take (Suc i) q) = Some t \<and> getRefValue t = None"
proof -
  from assms have "plain_at doc (take (Suc i) q)" by (simp add: clean_target_def list_all_iff)
  then show ?thesis by (auto simp: plain_at_def split: option.splits)
qed

lemma pointer_segments_nonempty:
  assumes "starts_with r ''#''" "r \<noteq> ''#''"
  shows "pointer_segments r \<noteq> []"
proof -
  from assms obtain s where r: "r = CHR ''#'' # s" "s \<noteq> []" by (cases r) auto
  then obtain c s' where s: "s = c # s'" by (cases s) auto
  show ?thesis
    using r s split_on_nonempty[of "CHR ''/''" s']
    by (cases "split_on (CHR ''/'') s'") (auto simp: pointer_segments_def split: list.splits)
qed

lemma clean_target_found:
  assumes "clean_target doc q" "q \<noteq> []"
  shows "\<exists>t. get doc q = Some t \<and> getRefValue t = None"
  using clean_targetD[OF assms(1), of "length q - 1"] assms(2) by simp

section \<open>The store while local references are replaced\<close>

lemma follows_alloc: "follows d doc (alloc d doc (\<lambda>a. None))"
  unfolding follows_def
proof (intro conjI allI impI)
  fix a ob
  assume "alloc d doc (\<lambda>a. None) a = Some ob"
  then show "\<exists>p j. a = (d, p) \<and> get doc p = Some j \<and> is_node j"
    by (cases a) (auto simp: alloc_def obj_of_def split: if_splits option.splits)
next
  fix p j
  assume "get doc p = Some j" "is_node j"
  then show "\<exists>ob. alloc d doc (\<lambda>a. None) (d, p) = Some ob \<and> fst ob = is_JArr j \<and>
                  map fst (snd ob) = map fst (entries j)"
    by (simp add: alloc_at obj_of_def comp_def)
next
  fix p j k c
  assume "get doc p = Some j" "map_of (entries j) k = Some c"
  then show "get_prop (alloc d doc (\<lambda>a. None)) (d, p) k = Some (val_of d (p @ [k]) c) \<or>
       (\<exists>r t. getRefValue c = Some r \<and> get doc (pointer_segments r) = Some t \<and>
              get_prop (alloc d doc (\<lambda>a. None)) (d, p) k = Some (val_of d (pointer_segments r) t))"
    by (simp add: get_prop_alloc)
qed

lemma follows_slot:
  assumes "follows d doc h" "get doc p = Some j" "map_of (entries j) k = Some c"
  shows "get_prop h (d, p) k = Some (val_of d (p @ [k]) c) \<or>
         (\<exists>r t. getRefValue c = Some r \<and> get doc (pointer_segments r) = Some t \<and>
                get_prop h (d, p) k = Some (val_of d (pointer_segments r) t))"
  using assms unfolding follows_def by blast

lemma follows_obj:
  assumes "follows d doc h" "get doc p = Some j" "is_node j"
  shows "\<exists>ob. h (d, p) = Some ob \<and> fst ob = is_JArr j \<and> map fst (snd ob) = map fst (entries j)"
  using assms unfolding follows_def by blast

lemma follows_dom:
  assumes "follows d doc h" "h a = Some ob"
  shows "\<exists>p j. a = (d, p) \<and> get doc p = Some j \<and> is_node j"
  using assms unfolding follows_def by blast

lemma follows_keys:
  assumes "follows d doc h" "get doc p = Some j"
  shows "own_keys h (d, p) = map fst (entries j)"
proof (cases "is_node j")
  case True
  from follows_obj[OF assms True] show ?thesis by (auto simp: own_keys_def)
next
  case False
  have "h (d, p) = None"
  proof (cases "h (d, p)")
    case (Some ob)
    from follows_dom[OF assms(1) Some] assms(2) False show ?thesis by auto
  qed simp
  with False show ?thesis by (simp add: own_keys_def entries_scalar)
qed

lemma follows_held:
  assumes "follows d doc h" "get_prop h a k = Some v"
  shows "\<exists>p j c. a = (d, p) \<and> get doc p = Some j \<and> map_of (entries j) k = Some c"
proof -
  from assms(2) obtain ob where ob: "h a = Some ob" "map_of (snd ob) k = Some v"
    by (auto simp: get_prop_def split: option.splits)
  from follows_dom[OF assms(1) ob(1)] obtain p j where pj: "a = (d, p)" "get doc p = Some j" "is_node j"
    by blast
  from follows_obj[OF assms(1) pj(2,3)] ob(1) pj(1) have "map fst (snd ob) = map fst (entries j)"
    by auto
  moreover from ob(2) have "k \<in> set (map fst (snd ob))" by (auto dest: map_of_SomeD intro: rev_image_eqI)
  ultimately have "map_of (entries j) k \<noteq> None" by (simp add: map_of_eq_None_iff)
  with pj show ?thesis by auto
qed

lemma own_key_held: "k \<in> set (own_keys h a) \<Longrightarrow> \<exists>v. get_prop h a k = Some v"
  by (cases "h a") (auto simp: own_keys_def get_prop_def dest: weak_map_of_SomeI)

lemma held_own_key: "get_prop h a k = Some v \<Longrightarrow> k \<in> set (own_keys h a)"
  by (cases "h a") (auto simp: own_keys_def get_prop_def dest: map_of_SomeD intro: rev_image_eqI)

lemma target_plain:
  assumes "all_resolve doc" "get doc p = Some c" "getRefValue c = Some r"
    and "get doc (pointer_segments r) = Some t"
  shows "getRefValue t = None"
  using clean_target_found[OF all_resolveD(3)[OF assms(1-3)]
      pointer_segments_nonempty[OF all_resolveD(1,2)[OF assms(1-3)]]] assms(4)
  by simp

lemma follows_in_doc:
  assumes "follows d doc h" "get_prop h a k = Some v"
  shows "in_doc d doc v"
proof -
  from follows_held[OF assms] obtain p j c where
    pj: "a = (d, p)" "get doc p = Some j" "map_of (entries j) k = Some c" by blast
  from follows_slot[OF assms(1) pj(2,3)] assms(2) pj(1) get_snoc[OF pj(2,3)]
  show ?thesis by (auto simp: in_doc_def)
qed

lemma node_ref_follows:
  assumes f: "follows d doc h" and g: "all_resolve doc" and t: "get doc q = Some t"
  shows "node_ref h (val_of d q t) = getRefValue t"
proof (cases "is_node t")
  case False
  then show ?thesis by (cases t) (simp_all add: node_ref_def)
next
  case True
  from follows_obj[OF f t True] obtain ob where
    ob: "h (d, q) = Some ob" "fst ob = is_JArr t" "map fst (snd ob) = map fst (entries t)"
    by blast
  show ?thesis
  proof (cases t)
    case (JArr xs)
    with ob show ?thesis by (simp add: node_ref_def)
  next
    case (JObj kvs)
    show ?thesis
    proof (cases "map_of kvs ''$ref''")
      case None
      then have "''$ref'' \<notin> fst ` set kvs" by (simp add: map_of_eq_None_iff)
      moreover have "fst ` set (snd ob) = fst ` set kvs"
        using ob(3) JObj by (metis entries.simps(1) set_map)
      ultimately have "map_of (snd ob) ''$ref'' = None" by (simp add: map_of_eq_None_iff)
      with ob JObj None show ?thesis by (simp add: node_ref_def)
    next
      case (Some c)
      with JObj have m: "map_of (entries t) ''$ref'' = Some c" by simp
      have "get_prop h (d, q) ''$ref'' = Some (val_of d (q @ [''$ref'']) c)"
      proof (cases "getRefValue c")
        case None
        with follows_slot[OF f t m] show ?thesis by auto
      next
        case (Some r)
        from all_resolveD(4)[OF g get_snoc[OF t m] Some] show ?thesis by simp
      qed
      then have "map_of (snd ob) ''$ref'' = Some (val_of d (q @ [''$ref'']) c)"
        using ob(1) by (simp add: get_prop_def)
      with ob JObj Some show ?thesis by (cases c) (simp_all add: node_ref_def)
    qed
  qed (use True in simp_all)
qed

lemma status_same:
  assumes "follows d doc h" "follows d doc h'" "all_resolve doc" "in_doc d doc v"
  shows "node_ref h' v = node_ref h v"
  using assms by (auto simp: in_doc_def node_ref_follows)

lemma val_of_VObj: "val_of d p c = VObj (d', q) \<Longrightarrow> d' = d \<and> q = p \<and> is_node c"
  by (cases c) auto

lemma ref_is_node: "getRefValue t = Some r \<Longrightarrow> is_node t"
  by (cases t) auto

lemma lookup_follows:
  assumes "follows d doc h"
  shows "get doc p = Some j \<Longrightarrow>
         (\<forall>i<length ks. \<exists>t. get doc (p @ take (Suc i) ks) = Some t \<and> getRefValue t = None) \<Longrightarrow>
         \<exists>t. get doc (p @ ks) = Some t \<and> lookup_path h (val_of d p j) ks = Some (val_of d (p @ ks) t)"
proof (induction ks arbitrary: p j)
  case Nil
  then show ?case by simp
next
  case (Cons k ks)
  from Cons.prems(2)[rule_format, of 0] obtain c where
    c: "get doc (p @ [k]) = Some c" "getRefValue c = None" by auto
  from c(1) Cons.prems(1) have m: "map_of (entries j) k = Some c"
    by (auto simp: get_append split: option.splits)
  then have node: "is_node j" by (cases j) auto
  from follows_slot[OF assms Cons.prems(1) m] c(2)
  have gp: "get_prop h (d, p) k = Some (val_of d (p @ [k]) c)" by auto
  have "\<forall>i<length ks. \<exists>t. get doc ((p @ [k]) @ take (Suc i) ks) = Some t \<and> getRefValue t = None"
  proof (intro allI impI)
    fix i assume "i < length ks"
    with Cons.prems(2)[rule_format, of "Suc i"]
    show "\<exists>t. get doc ((p @ [k]) @ take (Suc i) ks) = Some t \<and> getRefValue t = None" by simp
  qed
  from Cons.IH[OF c(1) this] obtain t where
    "get doc ((p @ [k]) @ ks) = Some t"
    "lookup_path h (val_of d (p @ [k]) c) ks = Some (val_of d ((p @ [k]) @ ks) t)" by blast
  with gp node show ?case by (simp add: val_of_node)
qed

lemma lookup_target:
  assumes "follows d doc h" "all_resolve doc" "get doc p = Some c" "getRefValue c = Some r"
  shows "\<exists>t. get doc (pointer_segments r) = Some t \<and> getRefValue t = None \<and>
             getRefPathValue h (val_of d [] doc) r = Some (val_of d (pointer_segments r) t)"
proof -
  from all_resolveD(3)[OF assms(2-4)]
  have "\<forall>i<length (pointer_segments r). \<exists>t. get doc ([] @ take (Suc i) (pointer_segments r)) = Some t \<and>
          getRefValue t = None"
    using clean_targetD by simp
  from lookup_follows[OF assms(1) _ this, of doc] obtain t where
    t: "get doc (pointer_segments r) = Some t"
    "lookup_path h (val_of d [] doc) (pointer_segments r) = Some (val_of d (pointer_segments r) t)"
    by auto
  from target_plain[OF assms(2-4) t(1)] t show ?thesis by (simp add: getRefPathValue_def)
qed

text \<open>Entries only ever change from a reference node to the node its pointer names.\<close>

lemma grows_refl: "grows h h"
  by (simp add: grows_def)

lemma grows_keeps:
  "grows h h' \<Longrightarrow> get_prop h a k = Some v \<Longrightarrow> node_ref h v = None \<Longrightarrow> get_prop h' a k = Some v"
  unfolding grows_def by blast

lemma grows_held: "grows h h' \<Longrightarrow> get_prop h' a k = Some v \<Longrightarrow> \<exists>v0. get_prop h a k = Some v0"
  unfolding grows_def by (metis not_None_eq option.distinct(1))

lemma settledD: "settled h P v \<Longrightarrow> reach h P v y \<Longrightarrow> settled_at h y"
  unfolding settled_def by blast

lemma settled_atD: "settled_at h a \<Longrightarrow> get_prop h a k = Some v \<Longrightarrow> node_ref h v = None"
  unfolding settled_at_def by blast

lemma unheldD: "unheld h x \<Longrightarrow> get_prop h a k \<noteq> Some x"
  unfolding unheld_def by blast

lemma grows_trans:
  assumes "grows h h1" "grows h1 h2" "follows d doc h" "follows d doc h1" "all_resolve doc"
  shows "grows h h2"
  unfolding grows_def
proof (intro conjI allI impI)
  fix a k v
  assume g: "get_prop h a k = Some v" and n: "node_ref h v = None"
  from grows_keeps[OF assms(1) g n] have 1: "get_prop h1 a k = Some v" .
  have "in_doc d doc v" using assms(3) g by (rule follows_in_doc)
  with n have "node_ref h1 v = None" using status_same[OF assms(3,4,5)] by simp
  with grows_keeps[OF assms(2) 1] show "get_prop h2 a k = Some v" by simp
next
  fix a k
  assume "get_prop h2 a k \<noteq> None"
  with grows_held[OF assms(2)] have "get_prop h1 a k \<noteq> None" by fastforce
  with grows_held[OF assms(1)] show "get_prop h a k \<noteq> None" by fastforce
qed

lemma settled_at_stable:
  assumes "settled_at h y" "grows h h'" "follows d doc h" "follows d doc h'" "all_resolve doc"
  shows "settled_at h' y"
  unfolding settled_at_def
proof (intro allI impI)
  fix k v
  assume g: "get_prop h' y k = Some v"
  with grows_held[OF assms(2)] obtain v0 where v0: "get_prop h y k = Some v0" by blast
  from settled_atD[OF assms(1) v0] have n: "node_ref h v0 = None" .
  from grows_keeps[OF assms(2) v0 n] have "get_prop h' y k = Some v0" .
  with g have "v = v0" by simp
  moreover have "in_doc d doc v0" using assms(3) v0 by (rule follows_in_doc)
  ultimately show "node_ref h' v = None" using n status_same[OF assms(3,4,5)] by simp
qed

lemma reach_start: "reach h P v y \<Longrightarrow> v \<notin> P"
  by (induction rule: reach.induct) simp_all

lemma reach_split:
  "reach h P v y \<Longrightarrow>
   reach h (insert (VObj x) P) v y \<or> y = x \<or>
   (\<exists>k v'. get_prop h x k = Some v' \<and> reach h (insert (VObj x) P) v' y)"
proof (induction rule: reach.induct)
  case (here a)
  then show ?case by (cases "a = x") (auto intro: reach.here)
next
  case (step a k v y)
  from step.IH show ?case
  proof (elim disjE)
    assume r: "reach h (insert (VObj x) P) v y"
    show ?thesis
    proof (cases "a = x")
      case True
      with step.hyps(2) r show ?thesis by blast
    next
      case False
      with step.hyps(1) have "VObj a \<notin> insert (VObj x) P" by simp
      from reach.step[OF this step.hyps(2) r] show ?thesis by simp
    qed
  qed auto
qed

lemma reach_unheld:
  "reach h P v y \<Longrightarrow> unheld h x \<Longrightarrow> v \<noteq> x \<Longrightarrow> reach h (insert x P) v y"
proof (induction rule: reach.induct)
  case (here a)
  then show ?case by (auto intro: reach.here)
next
  case (step a k v y)
  from unheldD[OF step.prems(1), of a k] step.hyps(2) have "v \<noteq> x" by auto
  from step.IH[OF step.prems(1) this] step.hyps(1,2) step.prems(2) show ?case
    by (auto intro: reach.step)
qed

lemma reach_stable:
  assumes "grows h h'"
  shows "reach h' P v y \<Longrightarrow> settled h P v \<Longrightarrow> reach h P v y"
proof (induction rule: reach.induct)
  case (here a)
  then show ?case by (auto intro: reach.here)
next
  case (step a k v y)
  have "reach h P (VObj a) a" using step.hyps(1) by (rule reach.here)
  with step.prems have sa: "settled_at h a" by (rule settledD)
  from grows_held[OF assms step.hyps(2)] obtain v0 where v0: "get_prop h a k = Some v0" by blast
  from settled_atD[OF sa v0] have "node_ref h v0 = None" .
  from grows_keeps[OF assms v0 this] have "get_prop h' a k = Some v0" .
  with step.hyps(2) have eq: "v0 = v" by simp
  have "settled h P v"
    unfolding settled_def
  proof (intro allI impI)
    fix z
    assume "reach h P v z"
    with step.hyps(1) v0 eq have "reach h P (VObj a) z" by (auto intro: reach.step)
    with step.prems show "settled_at h z" by (rule settledD)
  qed
  then have "reach h P v y" by (rule step.IH)
  with step.hyps(1) v0 eq show ?case by (auto intro: reach.step)
qed

lemma settled_stable:
  assumes "settled h P v" "grows h h'" "follows d doc h" "follows d doc h'" "all_resolve doc"
  shows "settled h' P v"
  unfolding settled_def
proof (intro allI impI)
  fix y
  assume "reach h' P v y"
  from settledD[OF assms(1) reach_stable[OF assms(2) this assms(1)]] have "settled_at h y" .
  then show "settled_at h' y" using assms(2-5) by (rule settled_at_stable)
qed

lemma no_alias_stable:
  assumes "no_alias h P" "grows h h'" "follows d doc h" "follows d doc h'" "all_resolve doc"
    and "\<forall>x\<in>P. in_doc d doc x"
  shows "no_alias h' P"
  unfolding no_alias_def
proof (intro ballI impI)
  fix x
  assume x: "x \<in> P" and r': "node_ref h' x \<noteq> None"
  from x assms(6) have xd: "in_doc d doc x" by simp
  with r' have r: "node_ref h x \<noteq> None" using status_same[OF assms(3,4,5)] by simp
  with x assms(1) have u: "unheld h x" by (simp add: no_alias_def)
  show "unheld h' x"
    unfolding unheld_def
  proof (intro allI notI)
    fix a k
    assume g': "get_prop h' a k = Some x"
    with grows_held[OF assms(2)] obtain v0 where v0: "get_prop h a k = Some v0" by blast
    from unheldD[OF u, of a k] v0 have ne: "v0 \<noteq> x" by auto
    have nr: "node_ref h v0 \<noteq> None"
    proof
      assume "node_ref h v0 = None"
      from grows_keeps[OF assms(2) v0 this] have "get_prop h' a k = Some v0" .
      with g' ne show False by simp
    qed
    from follows_held[OF assms(3) v0] obtain p j c where
      pj: "a = (d, p)" "get doc p = Some j" "map_of (entries j) k = Some c" by blast
    have c: "get doc (p @ [k]) = Some c" using pj(2,3) by (rule get_snoc)
    have tgt: "node_ref H (val_of d (pointer_segments r0) t0) = None"
      if "follows d doc H" "getRefValue c = Some r0" "get doc (pointer_segments r0) = Some t0"
      for H r0 t0
      using node_ref_follows[OF that(1) assms(5) that(3)] target_plain[OF assms(5) c that(2,3)]
      by simp
    from follows_slot[OF assms(3) pj(2,3)] v0 pj(1) nr tgt[OF assms(3)]
    have o: "v0 = val_of d (p @ [k]) c" by auto
    from follows_slot[OF assms(4) pj(2,3)] g' pj(1) r' tgt[OF assms(4)]
    have "x = val_of d (p @ [k]) c" by auto
    with o ne show False by simp
  qed
qed

lemma unheld_after:
  assumes "follows d doc h" "all_resolve doc" "get doc q = Some t" "getRefValue t = Some r"
    and "q = [] \<or> (\<exists>pa k. q = pa @ [k] \<and> get_prop h (d, pa) k \<noteq> Some (val_of d q t))"
  shows "unheld h (val_of d q t)"
  unfolding unheld_def
proof (intro allI notI)
  fix a k
  assume g: "get_prop h a k = Some (val_of d q t)"
  have x: "val_of d q t = VObj (d, q)" using ref_is_node[OF assms(4)] by (rule val_of_node)
  from follows_held[OF assms(1) g] obtain p j c where
    pj: "a = (d, p)" "get doc p = Some j" "map_of (entries j) k = Some c" by blast
  have c: "get doc (p @ [k]) = Some c" using pj(2,3) by (rule get_snoc)
  from follows_slot[OF assms(1) pj(2,3)] g pj(1)
  consider (orig) "val_of d (p @ [k]) c = VObj (d, q)"
    | (tgt) r0 t0 where "getRefValue c = Some r0" "get doc (pointer_segments r0) = Some t0"
        "val_of d (pointer_segments r0) t0 = VObj (d, q)"
    using x by auto
  then show False
  proof cases
    case orig
    then have "q = p @ [k]" by (auto dest: val_of_VObj)
    with assms(5) g pj(1) show False by auto
  next
    case tgt
    from tgt(3) have "pointer_segments r0 = q" by (auto dest: val_of_VObj)
    with tgt(2) assms(3) have "t0 = t" by simp
    with target_plain[OF assms(2) c tgt(1,2)] assms(4) show False by simp
  qed
qed

text \<open>Overwriting an entry.\<close>

lemma map_of_overwrite:
  "map_of (map (\<lambda>kv. if fst kv = k then (k, x) else kv) kvs) k' =
     (if k' = k \<and> map_of kvs k \<noteq> None then Some x else map_of kvs k')"
  by (induction kvs) auto

lemma get_prop_set_prop:
  "get_prop (set_prop h a k x) a' k' =
     (if a' = a \<and> k' = k \<and> get_prop h a k \<noteq> None then Some x else get_prop h a' k')"
  by (cases "h a") (auto simp: get_prop_def set_prop_def map_of_overwrite)

lemma set_prop_at:
  "set_prop h a k x a' =
     (if a' = a then map_option (\<lambda>ob. (fst ob, map (\<lambda>kv. if fst kv = k then (k, x) else kv) (snd ob))) (h a)
      else h a')"
  by (cases "h a") (auto simp: set_prop_def)

lemma follows_set_prop:
  assumes "follows d doc h" "get doc pa = Some ja" "map_of (entries ja) k = Some c"
    and "getRefValue c = Some r" "get doc (pointer_segments r) = Some tr"
  shows "follows d doc (set_prop h (d, pa) k (val_of d (pointer_segments r) tr))"
  unfolding follows_def
proof (intro conjI allI impI)
  fix a ob
  assume "set_prop h (d, pa) k (val_of d (pointer_segments r) tr) a = Some ob"
  then obtain ob0 where "h a = Some ob0" by (auto simp: set_prop_at split: if_splits)
  with assms(1) show "\<exists>p j. a = (d, p) \<and> get doc p = Some j \<and> is_node j" by (rule follows_dom)
next
  fix p j
  assume pj: "get doc p = Some j" "is_node j"
  from follows_obj[OF assms(1) pj] show
    "\<exists>ob. set_prop h (d, pa) k (val_of d (pointer_segments r) tr) (d, p) = Some ob \<and>
          fst ob = is_JArr j \<and> map fst (snd ob) = map fst (entries j)"
    by (auto simp: set_prop_at comp_def if_distrib cong: if_cong)
next
  fix p j k' c'
  assume pj: "get doc p = Some j" "map_of (entries j) k' = Some c'"
  let ?h' = "set_prop h (d, pa) k (val_of d (pointer_segments r) tr)"
  show "get_prop ?h' (d, p) k' = Some (val_of d (p @ [k']) c') \<or>
       (\<exists>r t. getRefValue c' = Some r \<and> get doc (pointer_segments r) = Some t \<and>
              get_prop ?h' (d, p) k' = Some (val_of d (pointer_segments r) t))"
  proof (cases "p = pa \<and> k' = k")
    case True
    with pj assms(2,3) have "c' = c" by simp
    moreover from follows_slot[OF assms(1,2,3)] have "get_prop h (d, pa) k \<noteq> None" by auto
    ultimately show ?thesis using True assms(4,5) by (auto simp: get_prop_set_prop)
  next
    case False
    with follows_slot[OF assms(1) pj] show ?thesis by (auto simp: get_prop_set_prop)
  qed
qed

lemma grows_set_prop:
  assumes "get_prop h a k = Some v" "node_ref h v \<noteq> None"
  shows "grows h (set_prop h a k x)"
  using assms by (auto simp: grows_def get_prop_set_prop)

section \<open>The walk of a document whose references all resolve\<close>

lemma reach_obj: "reach h P v y \<Longrightarrow> \<exists>a. v = VObj a"
  by (induction rule: reach.induct) simp_all

lemma settled_scalar: "\<not> is_node t \<Longrightarrow> settled h P (val_of d q t)"
  unfolding settled_def using reach_obj[of h P "val_of d q t"] val_of_scalar[of t d q] by blast

lemma settled_parent: "v \<in> P \<Longrightarrow> settled h P v"
  unfolding settled_def using reach_start[of h P v] by blast

lemma clear_missing_none: "missing st = [] \<Longrightarrow> clear_missing r st = st"
  by (simp add: clear_missing_def)

lemma card_in_doc:
  assumes "\<forall>x\<in>set ps. in_doc d doc x"
  shows "card (set ps) \<le> length (subnodes [] doc)"
proof -
  let ?f = "\<lambda>pj. val_of d (fst pj) (snd pj)"
  have "set ps \<subseteq> ?f ` set (subnodes [] doc)"
  proof
    fix x
    assume "x \<in> set ps"
    with assms obtain q t where "get doc q = Some t" "x = val_of d q t" by (auto simp: in_doc_def)
    with subnodes_member[of doc q t "[]"] show "x \<in> ?f ` set (subnodes [] doc)" by force
  qed
  then have "card (set ps) \<le> card (?f ` set (subnodes [] doc))" by (simp add: card_mono)
  also have "\<dots> \<le> card (set (subnodes [] doc))" by (simp add: card_image_le)
  also have "\<dots> \<le> length (subnodes [] doc)" by (rule card_length)
  finally show ?thesis .
qed

lemma walk_keys_flattens:
  assumes g: "all_resolve doc" and a: "get doc pa = Some ja"
    and P: "\<forall>x\<in>P. in_doc d doc x"
    and child: "\<And>k v w1. follows d doc (heap w1) \<Longrightarrow> no_alias (heap w1) P \<Longrightarrow>
                  get_prop (heap w1) (d, pa) k = Some v \<Longrightarrow>
                  \<exists>h' v'. C (Some ((d, pa), k)) v st w1 = Some (v', st, w1\<lparr>heap := h'\<rparr>) \<and>
                     follows d doc h' \<and> grows (heap w1) h' \<and> in_doc d doc v' \<and>
                     node_ref h' v' = None \<and> get_prop h' (d, pa) k = Some v' \<and> settled h' P v'"
  shows "follows d doc (heap w) \<Longrightarrow> no_alias (heap w) P \<Longrightarrow>
         set ks \<subseteq> set (map fst (entries ja)) \<Longrightarrow>
         \<exists>h'. walk_keys C (d, pa) ks st w = Some (st, w\<lparr>heap := h'\<rparr>) \<and> follows d doc h' \<and>
              grows (heap w) h' \<and>
              (\<forall>k\<in>set ks. \<exists>vk. get_prop h' (d, pa) k = Some vk \<and> node_ref h' vk = None \<and>
                                settled h' P vk)"
proof (induction ks arbitrary: w)
  case Nil
  have "walk_keys C (d, pa) [] st w = Some (st, w\<lparr>heap := heap w\<rparr>)" by simp
  with Nil.prems(1) grows_refl[of "heap w"] show ?case by (intro exI[of _ "heap w"]) simp
next
  case (Cons k ks)
  from Cons.prems(3) have "k \<in> set (own_keys (heap w) (d, pa))"
    using follows_keys[OF Cons.prems(1) a] by simp
  then obtain v where v: "get_prop (heap w) (d, pa) k = Some v" using own_key_held by blast
  from child[OF Cons.prems(1,2) v] obtain h1 v1 where
    c: "C (Some ((d, pa), k)) v st w = Some (v1, st, w\<lparr>heap := h1\<rparr>)" "follows d doc h1"
       "grows (heap w) h1" "in_doc d doc v1" "node_ref h1 v1 = None"
       "get_prop h1 (d, pa) k = Some v1" "settled h1 P v1"
    by blast
  let ?w1 = "w\<lparr>heap := h1\<rparr>"
  have na: "no_alias (heap ?w1) P"
    using no_alias_stable[OF Cons.prems(2) c(3) Cons.prems(1) c(2) g P] by simp
  have f1: "follows d doc (heap ?w1)" using c(2) by simp
  from Cons.prems(3) have sub: "set ks \<subseteq> set (map fst (entries ja))" by simp
  from Cons.IH[OF f1 na sub] obtain h2 where
    r: "walk_keys C (d, pa) ks st ?w1 = Some (st, ?w1\<lparr>heap := h2\<rparr>)" "follows d doc h2"
       "grows (heap ?w1) h2"
       "\<forall>k\<in>set ks. \<exists>vk. get_prop h2 (d, pa) k = Some vk \<and> node_ref h2 vk = None \<and> settled h2 P vk"
    by blast
  from r(3) have g12: "grows h1 h2" by simp
  have run: "walk_keys C (d, pa) (k # ks) st w = Some (st, w\<lparr>heap := h2\<rparr>)"
    using v c(1) r(1) by simp
  have gr: "grows (heap w) h2" using c(3) g12 Cons.prems(1) c(2) g by (rule grows_trans)
  have k1: "get_prop h2 (d, pa) k = Some v1" using g12 c(6) c(5) by (rule grows_keeps)
  have k2: "node_ref h2 v1 = None" using status_same[OF c(2) r(2) g c(4)] c(5) by simp
  have k3: "settled h2 P v1" using c(7) g12 c(2) r(2) g by (rule settled_stable)
  have "\<forall>k'\<in>set (k # ks). \<exists>vk. get_prop h2 (d, pa) k' = Some vk \<and> node_ref h2 vk = None \<and>
          settled h2 P vk"
    using k1 k2 k3 r(4) by simp
  with run r(2) gr show ?case by blast
qed

lemma settled_at_keys:
  assumes "follows d doc h" "get doc q = Some t"
    and "\<forall>k\<in>set (map fst (entries t)). \<exists>vk. get_prop h (d, q) k = Some vk \<and> node_ref h vk = None \<and>
            settled h P vk"
  shows "settled_at h (d, q)"
    and "get_prop h (d, q) k = Some v \<Longrightarrow> settled h P v"
proof -
  have key: "k \<in> set (map fst (entries t))" if "get_prop h (d, q) k = Some v" for k v
    using held_own_key[OF that] follows_keys[OF assms(1,2)] by simp
  show "settled_at h (d, q)"
    unfolding settled_at_def
  proof (intro allI impI)
    fix k v
    assume gp: "get_prop h (d, q) k = Some v"
    from key[OF gp] assms(3) gp show "node_ref h v = None" by fastforce
  qed
  assume gp: "get_prop h (d, q) k = Some v"
  from key[OF gp] assms(3) gp show "settled h P v" by fastforce
qed

lemma walker_flattens:
  assumes g: "all_resolve doc" and hist: "history st = []" and miss: "missing st = []"
  shows "follows d doc (heap w) \<Longrightarrow> get doc q = Some t \<Longrightarrow>
         (case slot of None \<Rightarrow> ps = [] \<and> q = []
          | Some ak \<Rightarrow> get_prop (heap w) (fst ak) (snd ak) = Some (val_of d q t)) \<Longrightarrow>
         (\<forall>x\<in>set ps. in_doc d doc x) \<Longrightarrow> no_alias (heap w) (set ps) \<Longrightarrow>
         length (subnodes [] doc) < n + card (set ps) \<Longrightarrow>
         \<exists>h' v'. walker n E (val_of d [] doc) ps slot (val_of d q t) st w =
                    Some (v', st, w\<lparr>heap := h'\<rparr>)
            \<and> follows d doc h' \<and> grows (heap w) h' \<and> in_doc d doc v' \<and> node_ref h' v' = None
            \<and> (case slot of None \<Rightarrow> True | Some ak \<Rightarrow> get_prop h' (fst ak) (snd ak) = Some v')
            \<and> settled h' (set ps) v'"
proof (induction n arbitrary: w q t slot ps)
  case 0
  from card_in_doc[OF 0(4)] 0(6) show ?case by simp
next
  case (Suc n)
  let ?v = "val_of d q t"
  let ?root = "val_of d [] doc"
  let ?h = "heap w"
  let ?P' = "set (ps @ [?v])"
  have vd: "in_doc d doc ?v" using Suc.prems(2) by (auto simp: in_doc_def)
  have P': "\<forall>x\<in>?P'. in_doc d doc x" using Suc.prems(4) vd by simp
  have status: "node_ref H ?v = getRefValue t" if "follows d doc H" for H
    using node_ref_follows[OF that g Suc.prems(2)] .
  have kids: "\<exists>h' v'. walker n E ?root (ps @ [?v]) (Some ((d, pa), k)) v st w1 =
                         Some (v', st, w1\<lparr>heap := h'\<rparr>) \<and>
                follows d doc h' \<and> grows (heap w1) h' \<and> in_doc d doc v' \<and>
                node_ref h' v' = None \<and> get_prop h' (d, pa) k = Some v' \<and> settled h' ?P' v'"
    if "?v \<notin> set ps" "follows d doc (heap w1)" "no_alias (heap w1) ?P'"
      "get_prop (heap w1) (d, pa) k = Some v" for pa k v w1
  proof -
    from follows_in_doc[OF that(2,4)] obtain q' t' where
      qt: "get doc q' = Some t'" "v = val_of d q' t'" by (auto simp: in_doc_def)
    have "card ?P' = Suc (card (set ps))" using that(1) by simp
    with Suc.prems(6) have fuel: "length (subnodes [] doc) < n + card ?P'" by simp
    have sl: "case Some ((d, pa), k) of None \<Rightarrow> ps @ [?v] = [] \<and> q' = []
              | Some ak \<Rightarrow> get_prop (heap w1) (fst ak) (snd ak) = Some (val_of d q' t')"
      using that(4) qt(2) by simp
    from Suc.IH[OF that(2) qt(1) sl P' that(3) fuel] qt(2) show ?thesis by simp
  qed
  show ?case
  proof (cases "getRefValue t")
    case None
    have nr: "node_ref ?h ?v = None" using status[OF Suc.prems(1)] None by simp
    have on: "on_node (walker n E) E ?root slot ?v st w = Some ((?v, True), st, w)"
      using nr by (rule on_node_plain)
    have slot0: "case slot of None \<Rightarrow> True | Some ak \<Rightarrow> get_prop ?h (fst ak) (snd ak) = Some ?v"
      using Suc.prems(3) by (cases slot) auto
    show ?thesis
    proof (cases "is_node t \<and> ?v \<notin> set ps")
      case False
      have run: "walker (Suc n) E ?root ps slot ?v st w = Some (?v, st, w\<lparr>heap := ?h\<rparr>)"
      proof (cases "is_node t")
        case True
        with False on show ?thesis by (simp add: walk_step_def val_of_node)
      next
        case False
        with on show ?thesis by (cases t) (simp_all add: walk_step_def)
      qed
      have "settled ?h (set ps) ?v"
        using False settled_scalar[of t ?h "set ps" d q] settled_parent[of ?v "set ps" ?h] by blast
      with run Suc.prems(1) grows_refl[of ?h] vd nr slot0 show ?thesis by blast
    next
      case True
      then have node: "?v = VObj (d, q)" by (simp add: val_of_node)
      from True have notin: "?v \<notin> set ps" by simp
      have na: "no_alias ?h ?P'" using Suc.prems(5) nr by (simp add: no_alias_def)
      have keys: "own_keys ?h (d, q) = map fst (entries t)"
        using Suc.prems(1,2) by (rule follows_keys)
      from walk_keys_flattens[where C="walker n E ?root (ps @ [?v])" and P="?P'" and st=st,
          OF g Suc.prems(2) P' kids[OF notin] Suc.prems(1) na subset_refl]
      obtain h' where
        k: "walk_keys (walker n E ?root (ps @ [?v])) (d, q) (map fst (entries t)) st w =
              Some (st, w\<lparr>heap := h'\<rparr>)"
           "follows d doc h'" "grows ?h h'"
           "\<forall>k\<in>set (map fst (entries t)). \<exists>vk. get_prop h' (d, q) k = Some vk \<and>
               node_ref h' vk = None \<and> settled h' ?P' vk"
        by blast
      have run: "walker (Suc n) E ?root ps slot ?v st w = Some (?v, st, w\<lparr>heap := h'\<rparr>)"
        using on node notin keys k(1) by (simp add: walk_step_def)
      have nr': "node_ref h' ?v = None" using status[OF k(2)] None by simp
      have slot': "case slot of None \<Rightarrow> True | Some ak \<Rightarrow> get_prop h' (fst ak) (snd ak) = Some ?v"
        using slot0 grows_keeps[OF k(3) _ nr] by (cases slot) auto
      have "settled h' (set ps) ?v"
        unfolding settled_def
      proof (intro allI impI)
        fix y
        assume r: "reach h' (set ps) ?v y"
        from reach_split[OF r, of "(d, q)"] consider
            (a) "reach h' (insert (VObj (d, q)) (set ps)) ?v y"
          | (b) "y = (d, q)"
          | (c) k' v' where "get_prop h' (d, q) k' = Some v'"
              "reach h' (insert (VObj (d, q)) (set ps)) v' y"
          by blast
        then show "settled_at h' y"
        proof cases
          case a
          from reach_start[OF a] node show ?thesis by simp
        next
          case b
          with settled_at_keys(1)[OF k(2) Suc.prems(2) k(4)] show ?thesis by simp
        next
          case c
          from settled_at_keys(2)[OF k(2) Suc.prems(2) k(4) c(1)] have "settled h' ?P' v'" .
          moreover from c(2) node have "reach h' ?P' v' y" by simp
          ultimately show ?thesis by (rule settledD)
        qed
      qed
      with run k(2,3) vd nr' slot' show ?thesis by blast
    qed
  next
    case (Some r)
    note isref = Some
    have node: "?v = VObj (d, q)" using ref_is_node[OF isref] by (rule val_of_node)
    have nr: "node_ref ?h ?v = Some r" using status[OF Suc.prems(1)] isref by simp
    have loc: "classify E r = Local"
      using all_resolveD(1)[OF g Suc.prems(2) isref] by (simp add: classify_def)
    have nroot: "r \<noteq> ''#''" using g Suc.prems(2) isref by (rule all_resolveD(2))
    from lookup_target[OF Suc.prems(1) g Suc.prems(2) isref] obtain tr where
      tr: "get doc (pointer_segments r) = Some tr" "getRefValue tr = None"
          "getRefPathValue ?h ?root r = Some (val_of d (pointer_segments r) tr)"
      by blast
    let ?qr = "pointer_segments r"
    let ?tv = "val_of d ?qr tr"
    let ?w1 = "update_slot slot ?tv w"
    let ?h1 = "heap ?w1"
    have td: "in_doc d doc ?tv" using tr(1) by (auto simp: in_doc_def)
    have tplain: "node_ref H ?tv = None" if "follows d doc H" for H
      using node_ref_follows[OF that g tr(1)] tr(2) by simp
    have on: "on_node (walker n E) E ?root slot ?v st w = Some ((?tv, True), st, ?w1)"
      using on_node_local[OF nr loc nroot, of st "walker n E" ?root slot] tr(3) hist
        clear_missing_none[OF miss]
      by simp
    have differ: "?tv \<noteq> ?v" using tplain[OF Suc.prems(1)] nr by auto
    have s1: "follows d doc ?h1 \<and> grows ?h ?h1 \<and> ?w1 = w\<lparr>heap := ?h1\<rparr> \<and> ?v \<notin> set ps \<and>
              (case slot of None \<Rightarrow> True | Some ak \<Rightarrow> get_prop ?h1 (fst ak) (snd ak) = Some ?tv) \<and>
              (q = [] \<or> (\<exists>pa k. q = pa @ [k] \<and> get_prop ?h1 (d, pa) k \<noteq> Some ?v))"
    proof (cases slot)
      case None
      with Suc.prems(3) have "ps = []" "q = []" by simp_all
      with None Suc.prems(1) grows_refl[of ?h] show ?thesis by simp
    next
      case (Some ak)
      obtain a k where ak: "ak = (a, k)" by (cases ak)
      from Suc.prems(3) Some ak have held: "get_prop ?h a k = Some ?v" by simp
      from follows_held[OF Suc.prems(1) held] obtain pa ja c where
        pj: "a = (d, pa)" "get doc pa = Some ja" "map_of (entries ja) k = Some c" by blast
      have c: "get doc (pa @ [k]) = Some c" using pj(2,3) by (rule get_snoc)
      have "?v = val_of d (pa @ [k]) c"
      proof -
        have "node_ref ?h (val_of d (pointer_segments r0) t0) = None"
          if "getRefValue c = Some r0" "get doc (pointer_segments r0) = Some t0" for r0 t0
          using node_ref_follows[OF Suc.prems(1) g that(2)] target_plain[OF g c that] by simp
        with follows_slot[OF Suc.prems(1) pj(2,3)] held pj(1) nr show ?thesis by auto
      qed
      with node have qeq: "q = pa @ [k]" by (auto dest: val_of_VObj)
      with c Suc.prems(2) have ceq: "c = t" by simp
      have h1: "?h1 = set_prop ?h (d, pa) k ?tv" using Some ak pj(1) by simp
      from pj(3) ceq have mt: "map_of (entries ja) k = Some t" by simp
      from held pj(1) have held': "get_prop ?h (d, pa) k = Some ?v" by simp
      from nr have nr': "node_ref ?h ?v \<noteq> None" by simp
      have f1: "follows d doc ?h1"
        unfolding h1 using Suc.prems(1) pj(2) mt isref tr(1) by (rule follows_set_prop)
      have g1: "grows ?h ?h1"
        unfolding h1 using held' nr' by (rule grows_set_prop)
      have w1: "?w1 = w\<lparr>heap := ?h1\<rparr>" using Some ak by simp
      have now: "get_prop ?h1 (d, pa) k = Some ?tv"
        unfolding h1 using held' by (simp add: get_prop_set_prop)
      have notin: "?v \<notin> set ps"
      proof
        assume "?v \<in> set ps"
        with Suc.prems(5) nr have "unheld ?h ?v" by (auto simp: no_alias_def)
        from unheldD[OF this, of a k] held show False by simp
      qed
      from now differ have "get_prop ?h1 (d, pa) k \<noteq> Some ?v" by simp
      with qeq have pl: "q = [] \<or> (\<exists>pa k. q = pa @ [k] \<and> get_prop ?h1 (d, pa) k \<noteq> Some ?v)"
        by blast
      have sl: "case slot of None \<Rightarrow> True | Some ak \<Rightarrow> get_prop ?h1 (fst ak) (snd ak) = Some ?tv"
        unfolding Some ak pj(1) using now unfolding Some ak pj(1) by simp
      from f1 g1 w1 notin sl pl show ?thesis by (intro conjI)
    qed
    note f1 = s1[THEN conjunct1]
    note g1 = s1[THEN conjunct2, THEN conjunct1]
    note w1 = s1[THEN conjunct2, THEN conjunct2, THEN conjunct1]
    note notin = s1[THEN conjunct2, THEN conjunct2, THEN conjunct2, THEN conjunct1]
    note slot1 = s1[THEN conjunct2, THEN conjunct2, THEN conjunct2, THEN conjunct2, THEN conjunct1]
    note place = s1[THEN conjunct2, THEN conjunct2, THEN conjunct2, THEN conjunct2, THEN conjunct2]
    have un1: "unheld ?h1 ?v" using f1 g Suc.prems(2) isref place by (rule unheld_after)
    have na1: "no_alias ?h1 ?P'"
      using no_alias_stable[OF Suc.prems(5) g1 Suc.prems(1) f1 g Suc.prems(4)] un1
      by (simp add: no_alias_def)
    show ?thesis
    proof (cases "is_node tr")
      case False
      have run: "walker (Suc n) E ?root ps slot ?v st w = Some (?tv, st, ?w1)"
        using on False by (cases tr) (simp_all add: walk_step_def del: update_slot.simps)
      have "settled ?h1 (set ps) ?tv" using False by (rule settled_scalar)
      moreover from run w1 have "walker (Suc n) E ?root ps slot ?v st w = Some (?tv, st, w\<lparr>heap := ?h1\<rparr>)"
        by simp
      ultimately show ?thesis using f1 g1 td tplain[OF f1] slot1
        by (intro exI[of _ ?h1] exI[of _ ?tv] conjI)
    next
      case True
      then have tnode: "?tv = VObj (d, ?qr)" by (rule val_of_node)
      have keys: "own_keys ?h1 (d, ?qr) = map fst (entries tr)" using f1 tr(1) by (rule follows_keys)
      from walk_keys_flattens[where C="walker n E ?root (ps @ [?v])" and P="?P'" and st=st,
          OF g tr(1) P' kids[OF notin] f1 na1 subset_refl]
      obtain h2 where
        k: "walk_keys (walker n E ?root (ps @ [?v])) (d, ?qr) (map fst (entries tr)) st ?w1 =
              Some (st, ?w1\<lparr>heap := h2\<rparr>)"
           "follows d doc h2" "grows ?h1 h2"
           "\<forall>k\<in>set (map fst (entries tr)). \<exists>vk. get_prop h2 (d, ?qr) k = Some vk \<and>
               node_ref h2 vk = None \<and> settled h2 ?P' vk"
        by blast
      have w2: "?w1\<lparr>heap := h2\<rparr> = w\<lparr>heap := h2\<rparr>" by (subst w1) simp
      have run: "walker (Suc n) E ?root ps slot ?v st w = Some (?tv, st, w\<lparr>heap := h2\<rparr>)"
        using on tnode notin keys k(1) w2 by (simp add: walk_step_def del: update_slot.simps)
      have gr: "grows ?h h2" using g1 k(3) Suc.prems(1) f1 g by (rule grows_trans)
      have slot2: "case slot of None \<Rightarrow> True | Some ak \<Rightarrow> get_prop h2 (fst ak) (snd ak) = Some ?tv"
        using slot1 grows_keeps[OF k(3) _ tplain[OF f1]] by (cases slot) auto
      have na2: "no_alias h2 ?P'" using na1 k(3) f1 k(2) g P' by (rule no_alias_stable)
      have "node_ref h2 ?v \<noteq> None" using status[OF k(2)] isref by simp
      with na2 have un2: "unheld h2 ?v" by (simp add: no_alias_def)
      have "settled h2 (set ps) ?tv"
        unfolding settled_def
      proof (intro allI impI)
        fix y
        assume "reach h2 (set ps) ?tv y"
        then show "settled_at h2 y"
        proof (cases rule: reach.cases)
          case here
          with tnode have "y = (d, ?qr)" by simp
          with settled_at_keys(1)[OF k(2) tr(1) k(4)] show ?thesis by simp
        next
          case (step a k' v1)
          from step(1) tnode have a: "a = (d, ?qr)" by simp
          from unheldD[OF un2, of a k'] step(3) have "v1 \<noteq> ?v" by auto
          from reach_unheld[OF step(4) un2 this] have "reach h2 ?P' v1 y" by simp
          moreover from settled_at_keys(2)[OF k(2) tr(1) k(4)] step(3) a have "settled h2 ?P' v1"
            by simp
          ultimately show ?thesis by (rule settledD[rotated])
        qed
      qed
      with run k(2) gr td tplain[OF k(2)] slot2 show ?thesis by blast
    qed
  qed
qed

section \<open>References inside a substituted value\<close>

lemma reach_held:
  "reach h P v y \<Longrightarrow> v = VObj y \<or> (\<exists>a k. reach h P v a \<and> get_prop h a k = Some (VObj y))"
proof (induction rule: reach.induct)
  case (here a)
  then show ?case by simp
next
  case (step a k v y)
  from step.IH show ?case
  proof
    assume "v = VObj y"
    with step.hyps(1,2) reach.here[of a P h] show ?thesis by blast
  next
    assume "\<exists>a' k'. reach h P v a' \<and> get_prop h a' k' = Some (VObj y)"
    then obtain a' k' where "reach h P v a'" "get_prop h a' k' = Some (VObj y)" by blast
    with reach.step[OF step.hyps(1,2)] show ?thesis by blast
  qed
qed

lemma settled_reference_free:
  assumes "settled h {} v" "node_ref h v = None"
  shows "reference_free h v"
  unfolding reference_free_def
proof (intro allI impI)
  fix y
  assume "reach h {} v y"
  from reach_held[OF this] show "node_ref h (VObj y) = None"
  proof
    assume "v = VObj y"
    with assms(2) show ?thesis by simp
  next
    assume "\<exists>a k. reach h {} v a \<and> get_prop h a k = Some (VObj y)"
    then obtain a k where ak: "reach h {} v a" "get_prop h a k = Some (VObj y)" by blast
    from settledD[OF assms(1) ak(1)] ak(2) show ?thesis by (rule settled_atD)
  qed
qed

lemma in_doc_not_VErr: "in_doc d doc v \<Longrightarrow> v \<noteq> VErr e"
  by (auto simp: in_doc_def val_of_not_VErr)

text \<open>
  Claim C1, at the document \<open>{a: {$ref: #/b}, b: {$ref: #/c}, c: {x: 1}}\<close>. The static
  pass accepts it and every pointer in it finds a value, so that every reference can be
  resolved. Yet \<open>a\<close> comes back as the reference node \<open>{$ref: #/c}\<close>, and nothing is
  reported missing: the value that line 247 puts in the place of \<open>a\<close> is the node found
  at \<open>b\<close>, itself a reference not yet replaced, and the walk goes on into its entries
  without the callback seeing it again. With the keys \<open>b\<close> and \<open>a\<close> in the other order
  the same document comes back free of references.
\<close>

theorem chain_left_unresolved:
  "checkLocalCircular (host no_files) chain_doc = None
   \<and> get chain_doc (pointer_segments ''#/b'') = Some (ref ''#/c'')
   \<and> get chain_doc (pointer_segments ''#/c'') = Some (JObj [(''x'', JNum 1)])
   \<and> result_doc 3 (deref 6 (host no_files) empty_cache chain_doc default_options) =
       Some (Inr (JObj [(''a'', JObj [(''$ref'', JStr ''#/c'')]), (''b'', JObj [(''x'', JNum 1)]),
                        (''c'', JObj [(''x'', JNum 1)])]))
   \<and> result_missing (deref 6 (host no_files) empty_cache chain_doc default_options) = []
   \<and> result_doc 3 (deref 6 (host no_files) empty_cache chain_doc_reordered default_options) =
       Some (Inr (JObj [(''b'', JObj [(''x'', JNum 1)]), (''a'', JObj [(''x'', JNum 1)]),
                        (''c'', JObj [(''x'', JNum 1)])]))"
  by (simp add: engine_defs example_defs eval_nat_numeral)

text \<open>
  Where no pointer names a reference node or passes through one, the walk does resolve
  the references inside the values it puts in place. For every document which its copy
  equals, that the static pass accepts and all of whose reference nodes resolve inside it
  (each is local and not \<open>#\<close>; each place along its pointer, the last included, holds a
  node that is not a reference node; none is the \<open>$ref\<close> entry of an object), the call,
  given fuel beyond the number of nodes of the document, returns a value and not an
  error, reports nothing missing, does not call the loader, and no object met from the
  returned value by following entries is a reference node. Substituted values are shared,
  not copied, so the returned value need not be a tree.
\<close>

theorem resolvable_references_flattened:
  assumes "all_resolve doc" "checkLocalCircular E doc = None" "length (subnodes [] doc) < n"
    and "clone doc = doc"
  shows "\<exists>v st w. deref n E c doc options = Some (Inr v, st, w) \<and> missing st = [] \<and>
                   loads w = [] \<and> reference_free (heap w) v"
proof -
  let ?st = "initial_state E doc options"
  let ?iw = "(initial_world E c options)\<lparr>cache := (\<lambda>k. None)\<rparr>"
  let ?w = "enter_doc doc ?iw"
  have hp: "heap ?w = alloc 0 doc (\<lambda>a. None)" by (simp add: enter_doc_def initial_world_def)
  have run: "derefSchema n E (clone doc) ?st ?iw =
               walker n E (val_of 0 [] doc) [] None (val_of 0 [] doc) ?st ?w"
    using derefSchema_walk[where st="?st" and n=n and w="?iw" and E=E and doc=doc] assms(2,4)
    by simp
  have f: "follows 0 doc (heap ?w)" unfolding hp by (rule follows_alloc)
  have sl: "case None of None \<Rightarrow> [] = [] \<and> [] = []
            | Some ak \<Rightarrow> get_prop (heap ?w) (fst ak) (snd ak) = Some (val_of 0 [] doc)"
    by simp
  have fuel: "length (subnodes [] doc) < n + card (set ([] :: val list))" using assms(3) by simp
  have "\<exists>h' v'. walker n E (val_of 0 [] doc) [] None (val_of 0 [] doc) ?st ?w =
                    Some (v', ?st, ?w\<lparr>heap := h'\<rparr>)
            \<and> follows 0 doc h' \<and> grows (heap ?w) h' \<and> in_doc 0 doc v' \<and> node_ref h' v' = None
            \<and> (case None of None \<Rightarrow> True | Some ak \<Rightarrow> get_prop h' (fst ak) (snd ak) = Some v')
            \<and> settled h' (set []) v'"
    by (rule walker_flattens[OF assms(1) _ _ f _ sl _ _ fuel]) (simp_all add: no_alias_def)
  then obtain h' v' where
    r: "walker n E (val_of 0 [] doc) [] None (val_of 0 [] doc) ?st ?w = Some (v', ?st, ?w\<lparr>heap := h'\<rparr>)"
       "in_doc 0 doc v'" "node_ref h' v' = None" "settled h' {} v'"
    by auto
  have "deref n E c doc options = Some (Inr v', ?st, ?w\<lparr>heap := h'\<rparr>)"
    using run r(1) in_doc_not_VErr[OF r(2)] by (cases v') (auto simp: deref_def)
  moreover have "reference_free (heap (?w\<lparr>heap := h'\<rparr>)) v'"
    using settled_reference_free[OF r(4,3)] by simp
  moreover have "missing ?st = []" "loads (?w\<lparr>heap := h'\<rparr>) = []"
    by (simp_all add: enter_doc_def)
  ultimately show ?thesis by blast
qed

theorem resolvable_references_flattened_example:
  "all_resolve inner_ref_doc \<and> checkLocalCircular (host no_files) inner_ref_doc = None
   \<and> length (subnodes [] inner_ref_doc) < 9 \<and> clone inner_ref_doc = inner_ref_doc
   \<and> (\<exists>v st w. deref 9 (host no_files) empty_cache inner_ref_doc default_options = Some (Inr v, st, w)
         \<and> missing st = [] \<and> loads w = [] \<and> reference_free (heap w) v)
   \<and> result_doc 9 (deref 9 (host no_files) empty_cache inner_ref_doc default_options) =
       Some (Inr (JObj [(''a'', JObj [(''k'', JObj [(''x'', JNum 1)])]),
                        (''b'', JObj [(''k'', JObj [(''x'', JNum 1)])]),
                        (''c'', JObj [(''x'', JNum 1)])]))"
proof -
  have 1: "all_resolve inner_ref_doc"
    by (simp add: all_resolve_def resolves_def clean_target_def plain_at_def subnodes.simps(1)
        inner_ref_doc_def ref_def pointer_segments_def)
  have 2: "checkLocalCircular (host no_files) inner_ref_doc = None"
    by (simp add: engine_defs inner_ref_doc_def)
  have 3: "length (subnodes [] inner_ref_doc) < 9"
    by (simp add: subnodes.simps(1) inner_ref_doc_def ref_def)
  have 4: "result_doc 9 (deref 9 (host no_files) empty_cache inner_ref_doc default_options) =
       Some (Inr (JObj [(''a'', JObj [(''k'', JObj [(''x'', JNum 1)])]),
                        (''b'', JObj [(''k'', JObj [(''x'', JNum 1)])]),
                        (''c'', JObj [(''x'', JNum 1)])]))"
    by (simp add: engine_defs example_defs inner_ref_doc_def eval_nat_numeral)
  have 5: "clone inner_ref_doc = inner_ref_doc"
    by (simp add: inner_ref_doc_def ref_def inherited_names_def)
  from resolvable_references_flattened[OF 1 2 3 5, of empty_cache default_options] 1 2 3 4 5
  show ?thesis by blast
qed

text \<open>
  A reference that does not resolve is left as it is, also inside a value that has been
  put in place: in \<open>{a: {$ref: #/b}, b: {k: {$ref: #/nope}}}\<close> the reference node
  \<open>{$ref: #/nope}\<close> stands under \<open>a\<close> and under \<open>b\<close> in the document that comes back,
  and \<open>#/nope\<close> is reported missing.
\<close>

theorem inner_missing_reference_kept:
  "checkLocalCircular (host no_files) inner_missing_doc = None
   \<and> get inner_missing_doc (pointer_segments ''#/b'') = Some (JObj [(''k'', ref ''#/nope'')])
   \<and> result_doc 5 (deref 5 (host no_files) empty_cache inner_missing_doc default_options) =
       Some (Inr (JObj [(''a'', JObj [(''k'', JObj [(''$ref'', JStr ''#/nope'')])]),
                        (''b'', JObj [(''k'', JObj [(''$ref'', JStr ''#/nope'')])])]))
   \<and> result_missing (deref 5 (host no_files) empty_cache inner_missing_doc default_options) =
       [''#/nope'']"
  by (simp add: engine_defs example_defs inner_missing_doc_def pointer_segments_def eval_nat_numeral)

section \<open>The calls of the callback in a traversal\<close>

lemma walk_keys_traced_erase:
  assumes "\<And>slot node st w. map_option fst (C slot node st w) = C' slot node st w"
  shows "map_option (\<lambda>r. fst r) (walk_keys_traced C a ks st w) = walk_keys C' a ks st w"
proof (induction ks arbitrary: st w)
  case Nil
  show ?case by simp
next
  case (Cons k ks)
  show ?case
  proof (cases "get_prop (heap w) a k")
    case None
    with Cons.IH show ?thesis by simp
  next
    case (Some child)
    show ?thesis
    proof (cases "C (Some (a, k)) child st w")
      case None
      with assms[of "Some (a, k)" child st w] Some show ?thesis by simp
    next
      case (Some rt)
      obtain x st1 w1 tr1 where rt: "rt = ((x, st1, w1), tr1)" by (cases rt) auto
      with Some assms[of "Some (a, k)" child st w]
      have c': "C' (Some (a, k)) child st w = Some (x, st1, w1)" by simp
      from Cons.IH[of st1 w1] \<open>get_prop (heap w) a k = Some child\<close> Some rt c'
      show ?thesis by (cases "walk_keys_traced C a ks st1 w1") auto
    qed
  qed
qed

lemma walker_traced_erase:
  "map_option fst (walker_traced n E schema ps slot node st w) = walker n E schema ps slot node st w"
proof (induction n arbitrary: schema ps slot node st w)
  case 0
  show ?case by simp
next
  case (Suc n)
  show ?case
  proof (cases "on_node (walker n E) E schema slot node st w")
    case None
    then show ?thesis by (simp add: walk_step_traced_def walk_step_def)
  next
    case (Some r)
    obtain nd kg st1 w1 where r: "r = ((nd, kg), st1, w1)" by (cases r) auto
    show ?thesis
    proof (cases "kg \<and> (\<exists>a. nd = VObj a) \<and> node \<notin> set ps")
      case False
      with Some r show ?thesis
        by (cases nd) (auto simp: walk_step_traced_def walk_step_def)
    next
      case True
      then obtain a where a: "nd = VObj a" by blast
      have e: "map_option (\<lambda>r. fst r)
                 (walk_keys_traced (walker_traced n E schema (ps @ [node])) a (own_keys (heap w1) a) st1 w1) =
               walk_keys (walker n E schema (ps @ [node])) a (own_keys (heap w1) a) st1 w1"
        by (rule walk_keys_traced_erase) (rule Suc.IH)
      from Some r True a show ?thesis
        by (cases "walk_keys_traced (walker_traced n E schema (ps @ [node])) a (own_keys (heap w1) a) st1 w1")
           (auto simp: walk_step_traced_def walk_step_def e[symmetric])
    qed
  qed
qed

lemma derefSchema_traced_erase:
  "map_option fst (derefSchema_traced n E doc st w) = derefSchema n E doc st w"
  by (simp add: derefSchema_traced_def derefSchema_def derefSchema_with_def walker_traced_erase
      split: option.splits)


lemma call_fields [simp]:
  "call_slot (sl, nd, st, w) = sl" "call_node (sl, nd, st, w) = nd"
  "call_state (sl, nd, st, w) = st" "call_world (sl, nd, st, w) = w"
  by (simp_all add: call_slot_def call_node_def call_state_def call_world_def)

lemma threaded_append:
  "threaded W E schema tr1 s mid \<Longrightarrow> threaded W E schema tr2 mid fin \<Longrightarrow>
   threaded W E schema (tr1 @ tr2) s fin"
proof (induction tr1 arbitrary: s)
  case Nil
  then show ?case by simp
next
  case (Cons c cs)
  from Cons.prems(1) obtain r where
    r: "on_node W E schema (call_slot c) (call_node c) (call_state c) (call_world c) = Some r"
       "threaded W E schema cs (snd r) mid"
    and s: "call_state c = fst s" "call_world c = snd s"
    by (auto split: option.splits)
  from Cons.IH[OF r(2) Cons.prems(2)] r(1) s show ?case by simp
qed

lemma threaded_mono:
  assumes "walk_le W W'"
  shows "threaded W E schema tr s fin \<Longrightarrow> threaded W' E schema tr s fin"
proof (induction tr arbitrary: s)
  case Nil
  then show ?case by simp
next
  case (Cons c cs)
  from Cons.prems obtain r where
    r: "on_node W E schema (call_slot c) (call_node c) (call_state c) (call_world c) = Some r"
       "threaded W E schema cs (snd r) fin"
    and s: "call_state c = fst s" "call_world c = snd s"
    by (auto split: option.splits)
  from on_node_mono[OF assms r(1)] Cons.IH[OF r(2)] s show ?case by simp
qed

lemma walk_keys_traced_threaded:
  assumes "\<And>slot node st w r tr. C slot node st w = Some (r, tr) \<Longrightarrow>
             threaded W E schema tr (st, w) (snd r)"
  shows "walk_keys_traced C a ks st w = Some (sw, tr) \<Longrightarrow> threaded W E schema tr (st, w) sw"
proof (induction ks arbitrary: st w tr)
  case Nil
  then show ?case by auto
next
  case (Cons k ks)
  show ?case
  proof (cases "get_prop (heap w) a k")
    case None
    with Cons.prems have "walk_keys_traced C a ks st w = Some (sw, tr)" by simp
    then show ?thesis by (rule Cons.IH)
  next
    case (Some child)
    with Cons.prems obtain r1 tr1 tr2 where
      c: "C (Some (a, k)) child st w = Some (r1, tr1)"
      and rest: "walk_keys_traced C a ks (fst (snd r1)) (snd (snd r1)) = Some (sw, tr2)"
      and tr: "tr = tr1 @ tr2"
      by (auto split: option.splits)
    from assms[OF c] have "threaded W E schema tr1 (st, w) (fst (snd r1), snd (snd r1))" by simp
    from threaded_append[OF this Cons.IH[OF rest]] tr show ?thesis by simp
  qed
qed

lemma walk_step_traced_cases:
  assumes "walk_step_traced T W E schema ps slot node st w = Some (r, tr)"
  obtains (leaf) nd kg st1 w1 where
      "on_node W E schema slot node st w = Some ((nd, kg), st1, w1)"
      "r = (nd, st1, w1)" "tr = [(slot, node, st, w)]"
  | (inner) a st1 w1 sw2 tr' where
      "on_node W E schema slot node st w = Some ((VObj a, True), st1, w1)"
      "walk_keys_traced (T schema (ps @ [node])) a (own_keys (heap w1) a) st1 w1 = Some (sw2, tr')"
      "r = (VObj a, fst sw2, snd sw2)" "tr = (slot, node, st, w) # tr'"
proof (cases "on_node W E schema slot node st w")
  case None
  with assms show ?thesis by (simp add: walk_step_traced_def)
next
  case (Some x)
  obtain nd kg st1 w1 where x: "x = ((nd, kg), st1, w1)" by (cases x) auto
  show ?thesis
  proof (cases "kg \<and> (\<exists>a. nd = VObj a) \<and> node \<notin> set ps")
    case False
    with assms Some x have rt: "r = (nd, st1, w1) \<and> tr = [(slot, node, st, w)]"
      by (cases nd) (auto simp: walk_step_traced_def split: if_splits)
    show ?thesis
    proof (rule leaf)
      show "on_node W E schema slot node st w = Some ((nd, kg), st1, w1)" using Some x by simp
      show "r = (nd, st1, w1)" using rt by simp
      show "tr = [(slot, node, st, w)]" using rt by simp
    qed
  next
    case True
    then obtain a where a: "nd = VObj a" and kg: kg and np: "node \<notin> set ps" by blast
    with assms Some x obtain sw2 tr' where
      "walk_keys_traced (T schema (ps @ [node])) a (own_keys (heap w1) a) st1 w1 = Some (sw2, tr')"
      "r = (VObj a, fst sw2, snd sw2)" "tr = (slot, node, st, w) # tr'"
      by (auto simp: walk_step_traced_def split: option.splits)
    then have k: "walk_keys_traced (T schema (ps @ [node])) a (own_keys (heap w1) a) st1 w1 = Some (sw2, tr')"
      and r: "r = (VObj a, fst sw2, snd sw2)" and t: "tr = (slot, node, st, w) # tr'" by simp_all
    show ?thesis
    proof (rule inner)
      show "on_node W E schema slot node st w = Some ((VObj a, True), st1, w1)" using Some x a kg by simp
      show "walk_keys_traced (T schema (ps @ [node])) a (own_keys (heap w1) a) st1 w1 = Some (sw2, tr')"
        by (rule k)
      show "r = (VObj a, fst sw2, snd sw2)" by (rule r)
      show "tr = (slot, node, st, w) # tr'" by (rule t)
    qed
  qed
qed

lemma walker_traced_threaded:
  "walker_traced n E schema ps slot node st w = Some (r, tr) \<Longrightarrow>
   threaded (walker n E) E schema tr (st, w) (snd r) \<and> tr \<noteq> [] \<and> hd tr = (slot, node, st, w)"
proof (induction n arbitrary: schema ps slot node st w r tr)
  case 0
  then show ?case by simp
next
  case (Suc n)
  from Suc.prems have "walk_step_traced (walker_traced n E) (walker n E) E schema ps slot node st w =
      Some (r, tr)" by simp
  then have "threaded (walker n E) E schema tr (st, w) (snd r) \<and> tr \<noteq> [] \<and>
             hd tr = (slot, node, st, w)"
  proof (cases rule: walk_step_traced_cases)
    case (leaf nd kg st1 w1)
    then show ?thesis by simp
  next
    case (inner a st1 w1 sw2 tr')
    have "threaded (walker n E) E schema tr' (st1, w1) sw2"
      using inner(2)
    proof (rule walk_keys_traced_threaded[rotated])
      fix sl nd st0 w0 r0 tr0
      assume "walker_traced n E schema (ps @ [node]) sl nd st0 w0 = Some (r0, tr0)"
      from Suc.IH[OF this] show "threaded (walker n E) E schema tr0 (st0, w0) (snd r0)" by simp
    qed
    with inner(1,3,4) show ?thesis by simp
  qed
  then have t: "threaded (walker n E) E schema tr (st, w) (snd r)"
    and ne: "tr \<noteq> []" and h: "hd tr = (slot, node, st, w)" by simp_all
  from threaded_mono[OF walker_Suc_le t] ne h show ?case by simp
qed

lemma walk_keys_traced_stable:
  assumes "stable E R"
    and "\<And>slot node st w r tr. C slot node st w = Some (r, tr) \<Longrightarrow>
           R (st, w) (snd r) \<and> (\<forall>c\<in>set tr. R (call_state c, call_world c) (snd r))"
  shows "walk_keys_traced C a ks st w = Some (sw, tr) \<Longrightarrow>
         R (st, w) sw \<and> (\<forall>c\<in>set tr. R (call_state c, call_world c) sw)"
proof (induction ks arbitrary: st w tr)
  case Nil
  with assms(1) show ?case by (auto simp: stable_refl)
next
  case (Cons k ks)
  show ?case
  proof (cases "get_prop (heap w) a k")
    case None
    with Cons.prems have "walk_keys_traced C a ks st w = Some (sw, tr)" by simp
    then show ?thesis by (rule Cons.IH)
  next
    case (Some child)
    with Cons.prems obtain r1 tr1 tr2 where
      c: "C (Some (a, k)) child st w = Some (r1, tr1)"
      and rest: "walk_keys_traced C a ks (fst (snd r1)) (snd (snd r1)) = Some (sw, tr2)"
      and tr: "tr = tr1 @ tr2"
      by (auto split: option.splits)
    from assms(2)[OF c] have 1: "R (st, w) (snd r1)"
      and 2: "\<forall>c\<in>set tr1. R (call_state c, call_world c) (snd r1)" by simp_all
    from Cons.IH[OF rest] have 3: "R (snd r1) sw"
      and 4: "\<forall>c\<in>set tr2. R (call_state c, call_world c) sw" by simp_all
    from 1 3 have 5: "R (st, w) sw" by (rule stable_trans[OF assms(1)])
    have 6: "R (call_state c, call_world c) sw" if "c \<in> set tr1" for c
    proof -
      from 2 that have "R (call_state c, call_world c) (snd r1)" by simp
      then show ?thesis using 3 by (rule stable_trans[OF assms(1)])
    qed
    have "\<forall>c\<in>set (tr1 @ tr2). R (call_state c, call_world c) sw"
    proof
      fix c
      assume "c \<in> set (tr1 @ tr2)"
      then have "c \<in> set tr1 \<or> c \<in> set tr2" by simp
      then show "R (call_state c, call_world c) sw"
      proof
        assume "c \<in> set tr1"
        then show ?thesis by (rule 6)
      next
        assume "c \<in> set tr2"
        with 4 show ?thesis by simp
      qed
    qed
    with 5 tr show ?thesis by simp
  qed
qed

lemma walker_traced_stable:
  assumes "stable E R"
  shows "walker_traced n E schema ps slot node st w = Some (r, tr) \<Longrightarrow>
         R (st, w) (snd r) \<and> (\<forall>c\<in>set tr. R (call_state c, call_world c) (snd r))"
proof (induction n arbitrary: schema ps slot node st w r tr)
  case 0
  then show ?case by simp
next
  case (Suc n)
  from Suc.prems have "walk_step_traced (walker_traced n E) (walker n E) E schema ps slot node st w =
      Some (r, tr)" by simp
  then show ?case
  proof (cases rule: walk_step_traced_cases)
    case (leaf nd kg st1 w1)
    from on_node_stable[OF assms walker_stable[OF assms] leaf(1)] leaf(2,3) show ?thesis by simp
  next
    case (inner a st1 w1 sw2 tr')
    from on_node_stable[OF assms walker_stable[OF assms] inner(1)] have 1: "R (st, w) (st1, w1)" .
    have 2: "R (st1, w1) sw2 \<and> (\<forall>c\<in>set tr'. R (call_state c, call_world c) sw2)"
      using inner(2)
    proof (rule walk_keys_traced_stable[OF assms, rotated])
      fix sl nd st0 w0 r0 tr0
      assume "walker_traced n E schema (ps @ [node]) sl nd st0 w0 = Some (r0, tr0)"
      then show "R (st0, w0) (snd r0) \<and> (\<forall>c\<in>set tr0. R (call_state c, call_world c) (snd r0))"
        by (rule Suc.IH)
    qed
    from 2 have 3: "R (st1, w1) sw2" by (rule conjunct1)
    from 1 3 have "R (st, w) sw2" by (rule stable_trans[OF assms])
    with 2 inner(3,4) show ?thesis by simp
  qed
qed


lemma derefSchema_traced_walk:
  assumes "derefSchema_traced n E doc st w = Some (res, tr)" "tr \<noteq> []"
  shows "walker_traced n E (val_of (nextdoc w) [] doc) [] None (val_of (nextdoc w) [] doc) st
           (enter_doc doc w) = Some (res, tr)"
  using assms by (auto simp: derefSchema_traced_def split: option.splits if_splits)

lemma derefSchema_traced_entry:
  assumes "derefSchema_traced n E doc st w = Some (res, [])"
  shows "\<exists>e. res = (VErr e, st, w)"
proof (cases "checkLocalCircular E doc = None \<and> \<not> circular st \<and> error st = None")
  case True
  with assms have "walker_traced n E (val_of (nextdoc w) [] doc) [] None (val_of (nextdoc w) [] doc) st
           (enter_doc doc w) = Some (res, [])"
    by (simp add: derefSchema_traced_def)
  from walker_traced_threaded[OF this] show ?thesis by simp
next
  case False
  with assms show ?thesis
    by (auto simp: derefSchema_traced_def split: option.splits if_splits)
qed

lemma derefSchema_traced_stable:
  assumes "stable E R" "derefSchema_traced n E doc st w = Some (res, tr)" "c \<in> set tr"
  shows "R (call_state c, call_world c) (snd res)"
proof -
  from assms(3) have ne: "tr \<noteq> []" by auto
  from walker_traced_stable[OF assms(1) derefSchema_traced_walk[OF assms(2) ne]] assms(3)
  show ?thesis by simp
qed

lemma deref_traced:
  assumes "deref n E c doc options = Some (out, st1, w1)"
  shows "\<exists>ret tr. derefSchema_traced n E (clone doc) (initial_state E doc options)
                    ((initial_world E c options)\<lparr>cache := (\<lambda>k. None)\<rparr>) = Some ((ret, st1, w1), tr)
                  \<and> out = (case ret of VErr e \<Rightarrow> Inl e
                           | _ \<Rightarrow> (case error st1 of Some e \<Rightarrow> Inl e | None \<Rightarrow> Inr ret))"
proof -
  let ?ist = "initial_state E doc options"
  let ?iw = "(initial_world E c options)\<lparr>cache := (\<lambda>k. None)\<rparr>"
  from assms obtain ret where d: "derefSchema n E (clone doc) ?ist ?iw = Some (ret, st1, w1)"
    and o: "out = (case ret of VErr e \<Rightarrow> Inl e
                   | _ \<Rightarrow> (case error st1 of Some e \<Rightarrow> Inl e | None \<Rightarrow> Inr ret))"
    by (cases "derefSchema n E (clone doc) ?ist ?iw") (auto simp: deref_def)
  from d derefSchema_traced_erase[of n E "clone doc" ?ist ?iw]
  obtain tr where "derefSchema_traced n E (clone doc) ?ist ?iw = Some ((ret, st1, w1), tr)"
    by (cases "derefSchema_traced n E (clone doc) ?ist ?iw") auto
  with o show ?thesis by blast
qed

section \<open>The history between the calls of the callback\<close>

lemma history_shrinks_refl: "history_shrinks s s"
  unfolding history_shrinks_def by (rule exI[of _ "length (history (fst s))"]) simp

lemma history_shrinks_same: "history st' = history st \<Longrightarrow> history_shrinks (st, w) (st', w')"
  unfolding history_shrinks_def by (rule exI[of _ "length (history st)"]) simp

lemma history_shrinks_trans:
  assumes "history_shrinks a b" "history_shrinks b c"
  shows "history_shrinks a c"
proof -
  from assms obtain j k where "history (fst b) = take j (history (fst a))"
    "history (fst c) = take k (history (fst b))"
    unfolding history_shrinks_def by blast
  then have "history (fst c) = take (min k j) (history (fst a))" by simp
  then show ?thesis unfolding history_shrinks_def by blast
qed

lemma butlast_take_shrinks: "\<exists>j. butlast (take k h) = take j h"
proof (cases "k \<le> length h")
  case True
  then show ?thesis by (auto simp: butlast_take)
next
  case False
  then have "butlast (take k h) = take (length h - 1) h" by (simp add: butlast_conv_take)
  then show ?thesis by blast
qed

lemma butlast_take_snoc_shrinks: "\<exists>j. butlast (take k (h @ [d])) = take j h"
proof (cases "k \<le> length h")
  case True
  then have "take k (h @ [d]) = take k h" by simp
  then show ?thesis using butlast_take_shrinks[of k h] by simp
next
  case False
  then have "butlast (take k (h @ [d])) = take (length h) h" by simp
  then show ?thesis by blast
qed

lemma addToHistory_history:
  "history (snd (addToHistory st t v)) = history st \<or>
   (\<exists>d. history (snd (addToHistory st t v)) = history st @ [d])"
  by (simp add: addToHistory_def push_history_def Let_def)

lemma addToHistory_refused:
  "\<not> fst (addToHistory st t v) \<Longrightarrow> snd (addToHistory st t v) = st"
  unfolding addToHistory_def push_history_def Let_def by (auto split: if_splits)

lemma note_missing_history: "history (note_missing r b st) = history st"
  by (simp add: note_missing_def Let_def)

lemma clear_missing_history: "history (clear_missing r st) = history st"
  by (simp add: clear_missing_def)

lemma pop_history_history: "history (pop_history st) = butlast (history st)"
  by (simp add: pop_history_def)

lemma setCurrent_history: "history (setCurrent st t v) = history st"
  by (simp add: setCurrent_def)

lemma derefSchema_with_shrinks:
  assumes "preserves history_shrinks W" "derefSchema_with W E schema st w = Some (x, st', w')"
  shows "history_shrinks (st, w) (st', w')"
proof (cases "checkLocalCircular E schema = None \<and> \<not> circular st \<and> error st = None")
  case False
  with assms(2) have "st' = st \<and> w' = w"
    by (auto simp: derefSchema_with_def split: option.splits if_splits)
  then show ?thesis by (simp add: history_shrinks_refl)
next
  case True
  with assms(2) have "W (val_of (nextdoc w) [] schema) [] None (val_of (nextdoc w) [] schema) st
                      (enter_doc schema w) = Some (x, st', w')"
    by (simp add: derefSchema_with_def)
  then have "history_shrinks (st, enter_doc schema w) (st', w')"
    using assms(1) by (rule preservesD[rotated])
  then show ?thesis by (simp add: history_shrinks_def)
qed

lemma finish_state: "finish refVal full lv st w = Some (x, st', w') \<Longrightarrow> st' = st"
  by (simp add: finish_def split: if_splits)

lemma load_file_shrinks:
  assumes "preserves history_shrinks W"
    and "load_file W E refVal filePath full doc st w = Some (x, st', w')"
  shows "history_shrinks (st, w) (st', w')"
proof -
  let ?old = "if folder_of E filePath \<noteq> [] then cwd st else []"
  let ?sw = "enter_folder E filePath (st, w)"
  from assms(2) obtain lv st2 w2 where
    d: "derefSchema_with W E doc (fst ?sw) (snd ?sw) = Some (lv, st2, w2)"
    by (cases "derefSchema_with W E doc (fst ?sw) (snd ?sw)") (auto simp: load_file_def Let_def)
  let ?sw3 = "leave_folder ?old (st2, w2)"
  from assms(2) d have f: "finish refVal full lv (fst ?sw3) (snd ?sw3) = Some (x, st', w')"
    by (simp add: load_file_def Let_def)
  from derefSchema_with_shrinks[OF assms(1) d]
  obtain k where "history st2 = take k (history (fst ?sw))"
    unfolding history_shrinks_def by auto
  moreover have "history (fst ?sw) = history st"
    by (simp add: enter_folder_def set_base_def)
  moreover have "history (fst ?sw3) = history st2"
    by (simp add: leave_folder_def set_base_def)
  moreover from finish_state[OF f] have "st' = fst ?sw3" .
  ultimately have "history st' = take k (history st)" by simp
  then show ?thesis unfolding history_shrinks_def by auto
qed

lemma getRefSchema_shrinks:
  assumes "preserves history_shrinks W"
    and "getRefSchema W E refVal refType parent st w = Some (x, st', w')"
  shows "history_shrinks (st, w) (st', w')"
proof (cases rule: getRefSchema_split[where refType=refType and w=w and E=E and st=st and refVal=refVal])
  case Local
  with assms(2) have "st' = st" by (simp add: getRefSchema_Local)
  then show ?thesis by (simp add: history_shrinks_same)
next
  case Unsupported
  with assms(2) have "st' = st" by (simp add: getRefSchema_Unsupported)
  then show ?thesis by (simp add: history_shrinks_same)
next
  case (Hit lv)
  with assms(2) have "st' = st" using finish_state by (simp add: getRefSchema_hit)
  then show ?thesis by (simp add: history_shrinks_same)
next
  case Miss
  with assms(2) have "st' = st" by (simp add: getRefSchema_miss)
  then show ?thesis by (simp add: history_shrinks_same)
next
  case (Falsy doc)
  with assms(2) have "st' = st" by (simp add: getRefSchema_falsy)
  then show ?thesis by (simp add: history_shrinks_same)
next
  case (Load doc)
  with assms(2) have "history_shrinks (st, log_load refVal w) (st', w')"
    using load_file_shrinks[OF assms(1)] by (simp add: getRefSchema_load)
  then show ?thesis by (simp add: history_shrinks_def)
qed

lemma on_node_shrinks:
  assumes "preserves history_shrinks W" "on_node W E schema slot node st w = Some (x, st', w')"
  shows "history_shrinks (st, w) (st', w')"
proof (cases "node_ref (heap w) node")
  case None
  with assms(2) have "st' = st" by (simp add: on_node_def)
  then show ?thesis by (simp add: history_shrinks_same)
next
  case (Some refVal)
  let ?t = "classify E refVal"
  let ?ok = "addToHistory st ?t refVal"
  show ?thesis
  proof (cases "fst ?ok")
    case False
    with Some assms(2) have "st' = flag_circular refVal (snd ?ok)"
      by (simp add: on_node_def Let_def)
    with addToHistory_refused[OF False] have "history st' = history st"
      by (simp add: flag_circular_def)
    then show ?thesis by (rule history_shrinks_same)
  next
    case True
    let ?ist = "setCurrent (snd ?ok) ?t refVal"
    from assms(2) Some True obtain nv st1 w1 where
      g: "getRefSchema W E refVal ?t schema ?ist w = Some (nv, st1, w1)"
      by (cases "getRefSchema W E refVal ?t schema ?ist w") (auto simp: on_node_def Let_def)
    from getRefSchema_shrinks[OF assms(1) g]
    obtain k where k: "history st1 = take k (history (snd ?ok))"
      unfolding history_shrinks_def by (auto simp: setCurrent_history)
    have "\<exists>j. butlast (history st1) = take j (history st)"
      using addToHistory_history[of st ?t refVal] k butlast_take_shrinks[of k "history st"]
        butlast_take_snoc_shrinks[of k "history st"]
      by auto
    moreover have "history st' = butlast (history st1)"
    proof (cases nv)
      case None
      with assms(2) Some True g
      have "st' = note_missing refVal (failOnMissing (opts w1)) (pop_history st1)"
        by (simp add: on_node_def Let_def)
      then show ?thesis
        by (simp add: note_missing_history clear_missing_history pop_history_history)
    next
      case (Some v)
      with assms(2) \<open>node_ref (heap w) node = Some refVal\<close> True g
      have "st' = clear_missing refVal (pop_history st1)"
        by (simp add: on_node_def Let_def)
      then show ?thesis
        by (simp add: note_missing_history clear_missing_history pop_history_history)
    qed
    ultimately show ?thesis by (simp add: history_shrinks_def)
  qed
qed

lemma walk_keys_shrinks:
  assumes "\<And>slot node st w x st' w'. C slot node st w = Some (x, st', w') \<Longrightarrow>
             history_shrinks (st, w) (st', w')"
  shows "walk_keys C a ks st w = Some (st', w') \<Longrightarrow> history_shrinks (st, w) (st', w')"
proof (induction ks arbitrary: st w)
  case Nil
  then show ?case by (simp add: history_shrinks_refl)
next
  case (Cons k ks)
  show ?case
  proof (cases "get_prop (heap w) a k")
    case None
    with Cons show ?thesis by simp
  next
    case (Some child)
    from Cons.prems Some obtain x st1 w1 where y: "C (Some (a, k)) child st w = Some (x, st1, w1)"
      by (cases "C (Some (a, k)) child st w") auto
    from Cons.prems Some y have "walk_keys C a ks st1 w1 = Some (st', w')" by simp
    then have "history_shrinks (st1, w1) (st', w')" by (rule Cons.IH)
    moreover have "history_shrinks (st, w) (st1, w1)" using y by (rule assms)
    ultimately show ?thesis by (rule history_shrinks_trans[rotated])
  qed
qed

lemma walk_step_shrinks:
  assumes "preserves history_shrinks W"
  shows "preserves history_shrinks (walk_step W E)"
  unfolding preserves_def
proof (intro allI impI)
  fix schema ps slot node st w x st' w'
  assume a: "walk_step W E schema ps slot node st w = Some (x, st', w')"
  then obtain nd keep st1 w1 where y: "on_node W E schema slot node st w = Some ((nd, keep), st1, w1)"
    by (cases "on_node W E schema slot node st w") (auto simp: walk_step_def)
  have 1: "history_shrinks (st, w) (st1, w1)" by (rule on_node_shrinks[OF assms y])
  show "history_shrinks (st, w) (st', w')"
  proof (cases "keep \<and> (\<exists>a. nd = VObj a) \<and> node \<notin> set ps")
    case False
    then consider "\<not> keep" | "keep" "\<forall>a. nd \<noteq> VObj a"
      | a' where "keep" "nd = VObj a'" "node \<in> set ps"
      by blast
    then have "st' = st1 \<and> w' = w1"
    proof cases
      case 1
      with a y show ?thesis by (simp add: walk_step_def)
    next
      case 2
      with a y show ?thesis by (cases nd) (simp_all add: walk_step_def)
    next
      case 3
      with a y show ?thesis by (simp add: walk_step_def)
    qed
    with 1 show ?thesis by simp
  next
    case True
    then obtain a' where nd: "nd = VObj a'" by blast
    let ?k = "walk_keys (W schema (ps @ [node])) a' (own_keys (heap w1) a') st1 w1"
    from a y True nd obtain st2 w2 where z: "?k = Some (st2, w2)"
      by (cases ?k) (auto simp: walk_step_def)
    with a y True nd have e: "st' = st2" "w' = w2" by (simp_all add: walk_step_def)
    have "history_shrinks (st1, w1) (st2, w2)"
      by (rule walk_keys_shrinks[OF _ z]) (rule preservesD[OF assms])
    with 1 e show ?thesis using history_shrinks_trans by blast
  qed
qed

lemma walker_shrinks: "preserves history_shrinks (walker n E)"
proof (induction n)
  case 0
  show ?case by (simp add: preserves_def)
next
  case (Suc n)
  then show ?case using walk_step_shrinks by simp
qed

lemma threaded_shrinks:
  assumes "preserves history_shrinks W"
  shows "threaded W E schema tr s fin \<Longrightarrow> c \<in> set tr \<Longrightarrow>
         history_shrinks s (call_state c, call_world c)"
proof (induction tr arbitrary: s)
  case Nil
  then show ?case by simp
next
  case (Cons d ds)
  from Cons.prems(1) obtain r where
    s: "call_state d = fst s" "call_world d = snd s"
    and o: "on_node W E schema (call_slot d) (call_node d) (call_state d) (call_world d) = Some r"
    and t: "threaded W E schema ds (snd r) fin"
    by (auto split: option.splits)
  show ?case
  proof (cases "c = d")
    case True
    with s show ?thesis by (simp add: history_shrinks_refl)
  next
    case False
    with Cons.prems(2) have "c \<in> set ds" by simp
    from Cons.IH[OF t this] have 1: "history_shrinks (snd r) (call_state c, call_world c)" .
    obtain x st1 w1 where r: "r = (x, st1, w1)" by (cases r) auto
    from on_node_shrinks[OF assms o[unfolded r]] s
    have "history_shrinks s (snd r)" by (simp add: r)
    with 1 show ?thesis by (rule history_shrinks_trans[rotated])
  qed
qed

lemma derefSchema_traced_shrinks:
  assumes "derefSchema_traced n E doc st w = Some (res, tr)" "c \<in> set tr"
  shows "\<exists>k. history (call_state c) = take k (history st)"
proof -
  from assms(2) have ne: "tr \<noteq> []" by auto
  from walker_traced_threaded[OF derefSchema_traced_walk[OF assms(1) ne]]
  have "threaded (walker n E) E (val_of (nextdoc w) [] doc) tr (st, enter_doc doc w) (snd res)"
    by simp
  from threaded_shrinks[OF walker_shrinks this assms(2)]
  show ?thesis by (simp add: history_shrinks_def)
qed

section \<open>Local references are looked up in the working copy\<close>

text \<open>
  Claim C2, as stated, at the document \<open>{a: {$ref: #/b}, b: {x: 1}, c: {$ref: #/a/x}}\<close>.
  In the document as the caller supplied it the pointer \<open>#/a/x\<close> finds nothing, for
  \<open>a\<close> is a reference node there; yet the call puts \<open>1\<close> in the place of \<open>c\<close>,
  because \<open>a\<close> has been replaced by the object at \<open>b\<close> when the walk comes to \<open>c\<close>.
\<close>

theorem later_ref_sees_earlier_substitution:
  "result_doc 3 (deref 5 (host no_files) empty_cache later_doc default_options) =
     Some (Inr (JObj [(''a'', JObj [(''x'', JNum 1)]), (''b'', JObj [(''x'', JNum 1)]), (''c'', JNum 1)]))
   \<and> get later_doc (pointer_segments ''#/a/x'') = None
   \<and> getRefPathValue (heap (enter_doc later_doc (initial_world (host no_files) empty_cache default_options)))
        (VObj (0, [])) ''#/a/x'' = None"
  by (simp add: engine_defs example_defs eval_nat_numeral)

text \<open>
  Claim C2, amended. \<open>derefSchema\<close> either returns an error on entry, with no call of
  the callback, or walks the document: then the calls of the callback begin with the call
  on the root object of the document, in the state at entry and the store the document
  has just entered, and every later call starts in the state and the store that the call
  before it left; the history at a call is an initial part of the history at entry. In
  each of these calls a reference node of local type (not \<open>#\<close>, and not in the history)
  has its pointer looked up from that root object in the store as it is at that call,
  with every replacement made so far; what is found is put in the node's place, and a
  pointer that finds nothing leaves the node and is reported missing. In the traversal
  that \<open>deref\<close> runs on the copy of the caller's document the history is empty at every
  call, so that this holds of every local reference node other than \<open>#\<close> that the
  callback is called on.
\<close>

theorem local_ref_looked_up_in_working_copy:
  "map_option fst (derefSchema_traced n E doc st w) = derefSchema n E doc st w
   \<and> (derefSchema_traced n E doc st w = Some (res, tr) \<longrightarrow>
        (tr = [] \<longrightarrow> (\<exists>e. res = (VErr e, st, w)))
        \<and> (tr \<noteq> [] \<longrightarrow>
             hd tr = (None, val_of (nextdoc w) [] doc, st, enter_doc doc w)
             \<and> threaded (walker n E) E (val_of (nextdoc w) [] doc) tr (st, enter_doc doc w) (snd res))
        \<and> (\<forall>call\<in>set tr.
              (\<exists>k. history (call_state call) = take k (history st))
              \<and> (\<forall>r.
                   node_ref (heap (call_world call)) (call_node call) = Some r \<longrightarrow>
                   classify E r = Local \<longrightarrow> r \<noteq> ''#'' \<longrightarrow>
                   toLowerCase (current (call_state call) @ '':'' @ r) \<notin> set (history (call_state call)) \<longrightarrow>
                   on_node (walker n E) E (val_of (nextdoc w) [] doc) (call_slot call) (call_node call)
                       (call_state call) (call_world call) =
                     (case getRefPathValue (heap (call_world call)) (val_of (nextdoc w) [] doc) r of
                        Some v \<Rightarrow>
                          Some ((v, True), clear_missing r (call_state call),
                                update_slot (call_slot call) v (call_world call))
                      | None \<Rightarrow>
                          Some ((call_node call, \<not> failOnMissing (opts (call_world call))),
                                note_missing r (failOnMissing (opts (call_world call))) (call_state call),
                                update_slot (call_slot call) (call_node call) (call_world call))))))
   \<and> (deref n E c schema options = Some (out, st1, w1) \<longrightarrow>
        (\<exists>ret tr0.
            derefSchema_traced n E (clone schema) (initial_state E schema options)
              ((initial_world E c options)\<lparr>cache := (\<lambda>k. None)\<rparr>) = Some ((ret, st1, w1), tr0)
          \<and> (\<forall>call\<in>set tr0. \<forall>r.
                node_ref (heap (call_world call)) (call_node call) = Some r \<longrightarrow>
                classify E r = Local \<longrightarrow> r \<noteq> ''#'' \<longrightarrow>
                on_node (walker n E) E (val_of 0 [] (clone schema)) (call_slot call) (call_node call)
                    (call_state call) (call_world call) =
                  (case getRefPathValue (heap (call_world call)) (val_of 0 [] (clone schema)) r of
                     Some v \<Rightarrow>
                       Some ((v, True), clear_missing r (call_state call),
                             update_slot (call_slot call) v (call_world call))
                   | None \<Rightarrow>
                       Some ((call_node call, \<not> failOnMissing (opts (call_world call))),
                             note_missing r (failOnMissing (opts (call_world call))) (call_state call),
                             update_slot (call_slot call) (call_node call) (call_world call))))))"
proof (intro conjI impI ballI allI)
  show "map_option fst (derefSchema_traced n E doc st w) = derefSchema n E doc st w"
    by (rule derefSchema_traced_erase)
next
  assume "derefSchema_traced n E doc st w = Some (res, tr)" and "tr = []"
  then show "\<exists>e. res = (VErr e, st, w)" using derefSchema_traced_entry by simp
next
  assume a: "derefSchema_traced n E doc st w = Some (res, tr)" and ne: "tr \<noteq> []"
  from walker_traced_threaded[OF derefSchema_traced_walk[OF a ne]]
  show "hd tr = (None, val_of (nextdoc w) [] doc, st, enter_doc doc w)"
    and "threaded (walker n E) E (val_of (nextdoc w) [] doc) tr (st, enter_doc doc w) (snd res)"
    by simp_all
next
  fix call
  assume "derefSchema_traced n E doc st w = Some (res, tr)" and "call \<in> set tr"
  then show "\<exists>k. history (call_state call) = take k (history st)"
    by (rule derefSchema_traced_shrinks)
next
  fix call r
  assume "node_ref (heap (call_world call)) (call_node call) = Some r" "classify E r = Local"
    "r \<noteq> ''#''"
    "toLowerCase (current (call_state call) @ '':'' @ r) \<notin> set (history (call_state call))"
  then show "on_node (walker n E) E (val_of (nextdoc w) [] doc) (call_slot call) (call_node call)
                       (call_state call) (call_world call) =
                     (case getRefPathValue (heap (call_world call)) (val_of (nextdoc w) [] doc) r of
                        Some v \<Rightarrow>
                          Some ((v, True), clear_missing r (call_state call),
                                update_slot (call_slot call) v (call_world call))
                      | None \<Rightarrow>
                          Some ((call_node call, \<not> failOnMissing (opts (call_world call))),
                                note_missing r (failOnMissing (opts (call_world call))) (call_state call),
                                update_slot (call_slot call) (call_node call) (call_world call)))"
    by (rule on_node_local)
next
  assume d: "deref n E c schema options = Some (out, st1, w1)"
  let ?ist = "initial_state E schema options"
  let ?iw = "(initial_world E c options)\<lparr>cache := (\<lambda>k. None)\<rparr>"
  let ?root = "val_of 0 [] (clone schema)"
  from deref_traced[OF d] obtain ret tr0 where
    t: "derefSchema_traced n E (clone schema) ?ist ?iw = Some ((ret, st1, w1), tr0)"
    by blast
  have "\<forall>call\<in>set tr0. \<forall>r.
          node_ref (heap (call_world call)) (call_node call) = Some r \<longrightarrow>
          classify E r = Local \<longrightarrow> r \<noteq> ''#'' \<longrightarrow>
          on_node (walker n E) E ?root (call_slot call) (call_node call)
              (call_state call) (call_world call) =
            (case getRefPathValue (heap (call_world call)) ?root r of
               Some v \<Rightarrow>
                 Some ((v, True), clear_missing r (call_state call),
                       update_slot (call_slot call) v (call_world call))
             | None \<Rightarrow>
                 Some ((call_node call, \<not> failOnMissing (opts (call_world call))),
                       note_missing r (failOnMissing (opts (call_world call))) (call_state call),
                       update_slot (call_slot call) (call_node call) (call_world call)))"
  proof (intro ballI allI impI)
    fix call r
    assume c: "call \<in> set tr0"
      and h: "node_ref (heap (call_world call)) (call_node call) = Some r" "classify E r = Local"
        "r \<noteq> ''#''"
    from derefSchema_traced_shrinks[OF t c] have "history (call_state call) = []" by simp
    then have "toLowerCase (current (call_state call) @ '':'' @ r) \<notin> set (history (call_state call))"
      by simp
    from on_node_local[OF h this]
    show "on_node (walker n E) E ?root (call_slot call) (call_node call)
              (call_state call) (call_world call) =
            (case getRefPathValue (heap (call_world call)) ?root r of
               Some v \<Rightarrow>
                 Some ((v, True), clear_missing r (call_state call),
                       update_slot (call_slot call) v (call_world call))
             | None \<Rightarrow>
                 Some ((call_node call, \<not> failOnMissing (opts (call_world call))),
                       note_missing r (failOnMissing (opts (call_world call))) (call_state call),
                       update_slot (call_slot call) (call_node call) (call_world call)))" .
  qed
  with t show "\<exists>ret tr0.
            derefSchema_traced n E (clone schema) ?ist ?iw = Some ((ret, st1, w1), tr0)
          \<and> (\<forall>call\<in>set tr0. \<forall>r.
                node_ref (heap (call_world call)) (call_node call) = Some r \<longrightarrow>
                classify E r = Local \<longrightarrow> r \<noteq> ''#'' \<longrightarrow>
                on_node (walker n E) E ?root (call_slot call) (call_node call)
                    (call_state call) (call_world call) =
                  (case getRefPathValue (heap (call_world call)) ?root r of
                     Some v \<Rightarrow>
                       Some ((v, True), clear_missing r (call_state call),
                             update_slot (call_slot call) v (call_world call))
                   | None \<Rightarrow>
                       Some ((call_node call, \<not> failOnMissing (opts (call_world call))),
                             note_missing r (failOnMissing (opts (call_world call))) (call_state call),
                             update_slot (call_slot call) (call_node call) (call_world call))))"
    by (intro exI[of _ ret] exI[of _ tr0] conjI)
qed

theorem local_ref_looked_up_in_working_copy_witness:
  "\<exists>out st1 w1 ret tr.
      deref 5 (host no_files) empty_cache later_doc default_options = Some (out, st1, w1)
    \<and> derefSchema_traced 5 (host no_files) (clone later_doc)
        (initial_state (host no_files) later_doc default_options)
        ((initial_world (host no_files) empty_cache default_options)\<lparr>cache := (\<lambda>k. None)\<rparr>) =
        Some ((ret, st1, w1), tr)
    \<and> map (\<lambda>c. (call_slot c, call_node c,
                 getRefPathValue (heap (call_world c)) (VObj (0, [])) ''#/a/x'')) tr =
        [(None, VObj (0, []), None),
         (Some ((0, []), ''a''), VObj (0, [''a'']), None),
         (Some ((0, [''b'']), ''x''), VNum 1, Some (VNum 1)),
         (Some ((0, []), ''b''), VObj (0, [''b'']), Some (VNum 1)),
         (Some ((0, [''b'']), ''x''), VNum 1, Some (VNum 1)),
         (Some ((0, []), ''c''), VObj (0, [''c'']), Some (VNum 1))]
    \<and> threaded (walker 5 (host no_files)) (host no_files) (VObj (0, [])) tr
        (initial_state (host no_files) later_doc default_options,
         enter_doc (clone later_doc)
           ((initial_world (host no_files) empty_cache default_options)\<lparr>cache := (\<lambda>k. None)\<rparr>))
        (st1, w1)
    \<and> node_ref (heap (call_world (tr ! 5))) (call_node (tr ! 5)) = Some ''#/a/x''
    \<and> on_node (walker 5 (host no_files)) (host no_files) (VObj (0, [])) (call_slot (tr ! 5))
        (call_node (tr ! 5)) (call_state (tr ! 5)) (call_world (tr ! 5)) =
        Some ((VNum 1, True), clear_missing ''#/a/x'' (call_state (tr ! 5)),
              update_slot (call_slot (tr ! 5)) (VNum 1) (call_world (tr ! 5)))"
proof -
  let ?E = "host no_files"
  let ?st = "initial_state ?E later_doc default_options"
  let ?w = "(initial_world ?E empty_cache default_options)\<lparr>cache := (\<lambda>k. None)\<rparr>"
  let ?find = "\<lambda>c. (call_slot c, call_node c,
                 getRefPathValue (heap (call_world c)) (VObj (0, [])) ''#/a/x'')"
  let ?calls = "[(None, VObj (0, []), None),
         (Some ((0, []), ''a''), VObj (0, [''a'']), None),
         (Some ((0, [''b'']), ''x''), VNum 1, Some (VNum 1)),
         (Some ((0, []), ''b''), VObj (0, [''b'']), Some (VNum 1)),
         (Some ((0, [''b'']), ''x''), VNum 1, Some (VNum 1)),
         (Some ((0, []), ''c''), VObj (0, [''c'']), Some (VNum 1))]"
  have "\<exists>ret st1 w1 tr. derefSchema_traced 5 ?E (clone later_doc) ?st ?w = Some ((ret, st1, w1), tr)
          \<and> map ?find tr = ?calls
          \<and> node_ref (heap (call_world (tr ! 5))) (call_node (tr ! 5)) = Some ''#/a/x''"
    by (simp add: engine_defs example_defs trace_defs eval_nat_numeral)
  then show ?thesis
  proof (elim exE conjE)
  fix ret st1 w1 tr
  assume t: "derefSchema_traced 5 ?E (clone later_doc) ?st ?w = Some ((ret, st1, w1), tr)"
    and m: "map ?find tr = ?calls"
    and r: "node_ref (heap (call_world (tr ! 5))) (call_node (tr ! 5)) = Some ''#/a/x''"
  from m have "length (map ?find tr) = 6" by simp
  then have len: "length tr = 6" by simp
  then have ne: "tr \<noteq> []" and mem: "tr ! 5 \<in> set tr" by auto
  have root: "val_of 0 [] (clone later_doc) = VObj (0, [])"
    by (simp add: engine_defs example_defs)
  from m have "map ?find tr ! 5 = ?calls ! 5" by (rule arg_cong[where f = "\<lambda>l. l ! 5"])
  with len have f: "getRefPathValue (heap (call_world (tr ! 5))) (VObj (0, [])) ''#/a/x'' = Some (VNum 1)"
    by simp
  have cl: "classify ?E ''#/a/x'' = Local" by (simp add: classify_def)
  from derefSchema_traced_erase[of 5 "?E" "clone later_doc" "?st" "?w"] t
  have "derefSchema 5 ?E (clone later_doc) ?st ?w = Some (ret, st1, w1)" by simp
  then obtain out where d: "deref 5 ?E empty_cache later_doc default_options = Some (out, st1, w1)"
    by (simp add: deref_def)
  note inst = local_ref_looked_up_in_working_copy[of 5 "?E" "clone later_doc" "?st" "?w" "(ret, st1, w1)" tr empty_cache
      later_doc default_options out st1 w1]
  from inst t ne root have th: "threaded (walker 5 ?E) ?E (VObj (0, [])) tr
      (?st, enter_doc (clone later_doc) ?w) (st1, w1)" by simp
  from inst d obtain ret' tr' where
    t': "derefSchema_traced 5 ?E (clone later_doc) ?st ?w = Some ((ret', st1, w1), tr')"
    and b: "\<forall>call\<in>set tr'. \<forall>r.
                node_ref (heap (call_world call)) (call_node call) = Some r \<longrightarrow>
                classify ?E r = Local \<longrightarrow> r \<noteq> ''#'' \<longrightarrow>
                on_node (walker 5 ?E) ?E (val_of 0 [] (clone later_doc)) (call_slot call) (call_node call)
                    (call_state call) (call_world call) =
                  (case getRefPathValue (heap (call_world call)) (val_of 0 [] (clone later_doc)) r of
                     Some v \<Rightarrow>
                       Some ((v, True), clear_missing r (call_state call),
                             update_slot (call_slot call) v (call_world call))
                   | None \<Rightarrow>
                       Some ((call_node call, \<not> failOnMissing (opts (call_world call))),
                             note_missing r (failOnMissing (opts (call_world call))) (call_state call),
                             update_slot (call_slot call) (call_node call) (call_world call)))"
    by blast
  from t t' have "tr' = tr" by simp
  with b mem r cl f root
  have o: "on_node (walker 5 ?E) ?E (VObj (0, [])) (call_slot (tr ! 5))
        (call_node (tr ! 5)) (call_state (tr ! 5)) (call_world (tr ! 5)) =
        Some ((VNum 1, True), clear_missing ''#/a/x'' (call_state (tr ! 5)),
              update_slot (call_slot (tr ! 5)) (VNum 1) (call_world (tr ! 5)))"
    by simp
  from d t m th r o show ?thesis
    by (intro exI[of _ out] exI[of _ st1] exI[of _ w1] exI[of _ ret] exI[of _ tr] conjI)
  qed
qed

section \<open>After an error\<close>

text \<open>
  Claim C5, as stated, at the strict call on \<open>{a: {$ref: #/nope}, b: {$ref: #/c}, c: 1}\<close>.
  The reference at \<open>a\<close> sets \<open>state.error\<close>. The callback, entered afterwards at \<open>b\<close>
  with the error set, replaces the node by \<open>1\<close> all the same; the call then returns the
  error, and the store it leaves holds \<open>1\<close> at \<open>b\<close>.
\<close>

theorem substitution_after_error:
  "error failed_state = Some (MissingRef ''#/nope'')
   \<and> get_prop (heap strict_world) (0, []) ''b'' = Some (VObj (0, [''b'']))
   \<and> on_node (walker 1 (host no_files)) (host no_files) (VObj (0, [])) (Some ((0, []), ''b''))
        (VObj (0, [''b''])) failed_state strict_world =
       Some ((VNum 1, True), failed_state, update_slot (Some ((0, []), ''b'')) (VNum 1) strict_world)
   \<and> get_prop (heap (update_slot (Some ((0, []), ''b'')) (VNum 1) strict_world)) (0, []) ''b'' =
       Some (VNum 1)
   \<and> result_doc 3 (deref 5 (host no_files) empty_cache strict_doc strict_options) =
       Some (Inl (MissingRef ''#/nope''))
   \<and> (case deref 5 (host no_files) empty_cache strict_doc strict_options of
        None \<Rightarrow> None
      | Some (r, st, w) \<Rightarrow> get_prop (heap w) (0, []) ''b'') = Some (VNum 1)"
  by (simp add: engine_defs example_defs eval_nat_numeral)

text \<open>
  Claim C5, amended. Once \<open>state.circular\<close> is true or \<open>state.error\<close> is set,
  \<open>derefSchema\<close> returns an error on entry and changes neither the state nor the store,
  so no document loaded afterwards is walked; a walk that goes on keeps the flag or the
  error set to its end; and when a call of the callback in the traversal that \<open>deref\<close>
  runs starts with the flag or the error set, the traversal ends with it set, and
  \<open>deref\<close> returns an error: the one \<open>derefSchema\<close> returned, or else \<open>state.error\<close>.
  (The walk in progress still visits the remaining nodes and replaces the references it
  can resolve.)
\<close>

theorem error_state_guard:
  "(flagged st \<longrightarrow> (\<exists>e. derefSchema n E schema st w = Some (VErr e, st, w)))
   \<and> (walker n E root ps slot node st w = Some (x, st', w') \<longrightarrow> flagged st \<longrightarrow> flagged st')
   \<and> (derefSchema_traced n E schema st w = Some (res, tr) \<longrightarrow>
        (\<exists>call\<in>set tr. flagged (call_state call)) \<longrightarrow> flagged (fst (snd res)))
   \<and> (deref n E c doc options = Some (out, st1, w1) \<longrightarrow>
        (\<exists>ret tr0. derefSchema_traced n E (clone doc) (initial_state E doc options)
                      ((initial_world E c options)\<lparr>cache := (\<lambda>k. None)\<rparr>) = Some ((ret, st1, w1), tr0)
                    \<and> ((\<exists>call\<in>set tr0. flagged (call_state call)) \<longrightarrow> flagged st1)
                    \<and> (flagged st1 \<longrightarrow>
                         (\<exists>e. out = Inl e \<and> (ret = VErr e \<or> error st1 = Some e)))))"
proof (intro conjI impI)
  assume "flagged st"
  then show "\<exists>e. derefSchema n E schema st w = Some (VErr e, st, w)"
    by (cases "checkLocalCircular E schema"; cases "error st")
       (auto simp: derefSchema_def derefSchema_with_def flagged_def)
next
  assume "walker n E root ps slot node st w = Some (x, st', w')" and f: "flagged st"
  then have "keeps_error (st, w) (st', w')"
    using walker_stable[OF stable_keeps_error] preservesD by blast
  with f show "flagged st'" by (auto simp: keeps_error_def flagged_def)
next
  assume a: "derefSchema_traced n E schema st w = Some (res, tr)"
    and "\<exists>call\<in>set tr. flagged (call_state call)"
  then obtain call where c: "call \<in> set tr" "flagged (call_state call)" by blast
  from derefSchema_traced_stable[OF stable_keeps_error a c(1)] c(2)
  show "flagged (fst (snd res))" by (auto simp: keeps_error_def flagged_def)
next
  assume d: "deref n E c doc options = Some (out, st1, w1)"
  let ?ist = "initial_state E doc options"
  let ?iw = "(initial_world E c options)\<lparr>cache := (\<lambda>k. None)\<rparr>"
  from deref_traced[OF d] obtain ret tr0 where
    t: "derefSchema_traced n E (clone doc) ?ist ?iw = Some ((ret, st1, w1), tr0)"
    and o: "out = (case ret of VErr e \<Rightarrow> Inl e
                   | _ \<Rightarrow> (case error st1 of Some e \<Rightarrow> Inl e | None \<Rightarrow> Inr ret))"
    by blast
  have 1: "(\<exists>call\<in>set tr0. flagged (call_state call)) \<longrightarrow> flagged st1"
  proof
    assume "\<exists>call\<in>set tr0. flagged (call_state call)"
    then obtain call where c: "call \<in> set tr0" "flagged (call_state call)" by blast
    from derefSchema_traced_stable[OF stable_keeps_error t c(1)] c(2)
    show "flagged st1" by (auto simp: keeps_error_def flagged_def)
  qed
  have 2: "flagged st1 \<longrightarrow> (\<exists>e. out = Inl e \<and> (ret = VErr e \<or> error st1 = Some e))"
  proof
    assume f: "flagged st1"
    from derefSchema_traced_erase[of n E "clone doc" ?ist ?iw] t
    have r: "derefSchema n E (clone doc) ?ist ?iw = Some (ret, st1, w1)" by simp
    from derefSchema_stable[OF stable_keeps_error r] have "keeps_error (?ist, ?iw) (st1, w1)" .
    with f have "error st1 \<noteq> None" by (auto simp: keeps_error_def flagged_def)
    then obtain e where "error st1 = Some e" by auto
    with o show "\<exists>e. out = Inl e \<and> (ret = VErr e \<or> error st1 = Some e)" by (cases ret) auto
  qed
  from t 1 2
  show "\<exists>ret tr0. derefSchema_traced n E (clone doc) ?ist ?iw = Some ((ret, st1, w1), tr0)
                    \<and> ((\<exists>call\<in>set tr0. flagged (call_state call)) \<longrightarrow> flagged st1)
                    \<and> (flagged st1 \<longrightarrow>
                         (\<exists>e. out = Inl e \<and> (ret = VErr e \<or> error st1 = Some e)))"
    by (intro exI[of _ ret] exI[of _ tr0] conjI)
qed

theorem error_state_guard_witness:
  "\<exists>out st1 w1 ret tr.
      deref 5 (host no_files) empty_cache strict_doc strict_options = Some (out, st1, w1)
    \<and> derefSchema_traced 5 (host no_files) (clone strict_doc)
        (initial_state (host no_files) strict_doc strict_options)
        ((initial_world (host no_files) empty_cache strict_options)\<lparr>cache := (\<lambda>k. None)\<rparr>) =
        Some ((ret, st1, w1), tr)
    \<and> map (\<lambda>c. (call_slot c, call_node c, error (call_state c))) tr =
        [(None, VObj (0, []), None),
         (Some ((0, []), ''a''), VObj (0, [''a'']), None),
         (Some ((0, []), ''b''), VObj (0, [''b'']), Some (MissingRef ''#/nope'')),
         (Some ((0, []), ''c''), VNum 1, Some (MissingRef ''#/nope''))]
    \<and> (\<exists>call\<in>set tr. flagged (call_state call))
    \<and> flagged st1
    \<and> (\<exists>e. out = Inl e \<and> (ret = VErr e \<or> error st1 = Some e))
    \<and> out = Inl (MissingRef ''#/nope'')"
proof -
  let ?E = "host no_files"
  let ?st = "initial_state ?E strict_doc strict_options"
  let ?w = "(initial_world ?E empty_cache strict_options)\<lparr>cache := (\<lambda>k. None)\<rparr>"
  let ?err = "\<lambda>c. (call_slot c, call_node c, error (call_state c))"
  let ?calls = "[(None, VObj (0, []), None),
         (Some ((0, []), ''a''), VObj (0, [''a'']), None),
         (Some ((0, []), ''b''), VObj (0, [''b'']), Some (MissingRef ''#/nope'')),
         (Some ((0, []), ''c''), VNum 1, Some (MissingRef ''#/nope''))]"
  have "\<exists>ret st1 w1 tr. derefSchema_traced 5 ?E (clone strict_doc) ?st ?w = Some ((ret, st1, w1), tr)
          \<and> map ?err tr = ?calls \<and> ret = VObj (0, [])
          \<and> error st1 = Some (MissingRef ''#/nope'')
          \<and> error (call_state (tr ! 2)) = Some (MissingRef ''#/nope'')"
    by (simp add: engine_defs example_defs trace_defs eval_nat_numeral)
  then show ?thesis
  proof (elim exE conjE)
  fix ret st1 w1 tr
  assume t: "derefSchema_traced 5 ?E (clone strict_doc) ?st ?w = Some ((ret, st1, w1), tr)"
    and m: "map ?err tr = ?calls" and rt: "ret = VObj (0, [])"
    and e1: "error st1 = Some (MissingRef ''#/nope'')"
    and e2: "error (call_state (tr ! 2)) = Some (MissingRef ''#/nope'')"
  from m have "length (map ?err tr) = 4" by simp
  then have len: "length tr = 4" by simp
  then have mem: "tr ! 2 \<in> set tr" by auto
  from e2 have "flagged (call_state (tr ! 2))" by (simp add: flagged_def)
  with mem have ex: "\<exists>call\<in>set tr. flagged (call_state call)" by blast
  from derefSchema_traced_erase[of 5 "?E" "clone strict_doc" "?st" "?w"] t
  have "derefSchema 5 ?E (clone strict_doc) ?st ?w = Some (ret, st1, w1)" by simp
  with rt e1 have d: "deref 5 ?E empty_cache strict_doc strict_options =
      Some (Inl (MissingRef ''#/nope''), st1, w1)"
    by (simp add: deref_def)
  note inst = error_state_guard[of "?st" 5 "?E" "clone strict_doc" "?w" _ _ _ _ _ _ _
      "(ret, st1, w1)" tr empty_cache strict_doc strict_options "Inl (MissingRef ''#/nope'')" st1 w1]
  from inst d obtain ret' tr' where
    t': "derefSchema_traced 5 ?E (clone strict_doc) ?st ?w = Some ((ret', st1, w1), tr')"
    and k: "(\<exists>call\<in>set tr'. flagged (call_state call)) \<longrightarrow> flagged st1"
    and r: "flagged st1 \<longrightarrow>
              (\<exists>e. Inl (MissingRef ''#/nope'') = Inl e \<and> (ret' = VErr e \<or> error st1 = Some e))"
    by blast
  from t t' have same: "ret' = ret" "tr' = tr" by simp_all
  from k ex same have fl: "flagged st1" by simp
  with r same have out: "\<exists>e. (Inl (MissingRef ''#/nope'') :: error + val) = Inl e
      \<and> (ret = VErr e \<or> error st1 = Some e)" by simp
  from d t m ex fl out show ?thesis
    by (intro exI[of _ "Inl (MissingRef ''#/nope'')"] exI[of _ st1] exI[of _ w1] exI[of _ ret]
        exI[of _ tr] conjI refl)
  qed
qed

end
